theory Spec2Isabelle
  imports Main "HOL-Library.Sublist"
begin

section \<open>Text buffers and Python's regular expressions\<close>

text \<open>
  The three scripts of the repository (\<^verbatim>\<open>comprehensive_fix.py\<close>,
  \<^verbatim>\<open>fix_syntax_errors.py\<close>, \<^verbatim>\<open>fix_remaining_syntax.py\<close>) rewrite the text of
  TypeScript files with chains of \<^verbatim>\<open>re.sub(pattern, replacement, content)\<close>.
  A text buffer is a \<^typ>\<open>string\<close>; a character stands for a code point below 256.
  The part of Python's \<^verbatim>\<open>re\<close> module the scripts use is modelled as a backtracking
  matcher that returns every way a pattern can match at the start of a string, in the
  order in which Python's engine tries them (greedy repetition: longest first;
  alternation: left branch first). The head of that list is the match Python reports.
\<close>

subsection \<open>Character classes\<close>

datatype citem = One char | Rng char char | SpaceC | WordC

datatype cset = Pos "citem list" | Neg "citem list"

text \<open>\<^verbatim>\<open>\s\<close> on a \<^verbatim>\<open>str\<close> pattern: the code points below 256 for which
  \<^verbatim>\<open>str.isspace\<close> holds.\<close>

definition is_space :: "char \<Rightarrow> bool" where
  "is_space c = ((of_char c :: nat) \<in> set [9, 10, 11, 12, 13, 28, 29, 30, 31, 32, 133, 160])"

definition in_rng :: "nat \<Rightarrow> nat \<Rightarrow> char \<Rightarrow> bool" where
  "in_rng lo hi c = (lo \<le> (of_char c :: nat) \<and> (of_char c :: nat) \<le> hi)"

text \<open>\<^verbatim>\<open>\w\<close> on a \<^verbatim>\<open>str\<close> pattern: alphanumeric code points and the underscore,
  again below 256.\<close>

definition is_word :: "char \<Rightarrow> bool" where
  "is_word c = (in_rng 48 57 c \<or> in_rng 65 90 c \<or> c = CHR ''_'' \<or> in_rng 97 122 c
     \<or> c = CHR 0xAA \<or> in_rng 178 179 c \<or> c = CHR 0xB5 \<or> in_rng 185 186 c
     \<or> in_rng 188 190 c \<or> in_rng 192 214 c \<or> in_rng 216 246 c \<or> in_rng 248 255 c)"

fun item_mem :: "citem \<Rightarrow> char \<Rightarrow> bool" where
  "item_mem (One a) c = (c = a)"
| "item_mem (Rng a b) c = in_rng (of_char a) (of_char b) c"
| "item_mem SpaceC c = is_space c"
| "item_mem WordC c = is_word c"

fun cmem :: "cset \<Rightarrow> char \<Rightarrow> bool" where
  "cmem (Pos is) c = list_ex (\<lambda>i. item_mem i c) is"
| "cmem (Neg is) c = (\<not> list_ex (\<lambda>i. item_mem i c) is)"

subsection \<open>Patterns\<close>

text \<open>
  Every repetition in the scripts' patterns is a greedy \<^verbatim>\<open>*\<close> or \<^verbatim>\<open>+\<close> on a single
  character class, so \<open>Star\<close> and \<open>Plus\<close> take a class. \<open>Eol\<close> is \<^verbatim>\<open>$\<close> under
  \<^verbatim>\<open>re.MULTILINE\<close>, the only way the scripts use it. \<open>Group n\<close> is the \<open>n\<close>-th
  capturing group.
\<close>

datatype regex =
    Lit string
  | Chr cset
  | Star cset
  | Plus cset
  | Eol
  | Seq regex regex
  | Alt regex regex
  | Group nat regex

type_synonym caps = "nat \<Rightarrow> string option"

type_synonym mstate = "string \<times> caps"

text \<open>The remainders after a greedy run of class members, longest run first.\<close>

fun greedy :: "cset \<Rightarrow> string \<Rightarrow> string list" where
  "greedy C [] = [[]]"
| "greedy C (c # cs) = (if cmem C c then greedy C cs @ [c # cs] else [c # cs])"

fun rmatch :: "regex \<Rightarrow> mstate \<Rightarrow> mstate list" where
  "rmatch (Lit w) (s, g) = (if take (length w) s = w then [(drop (length w) s, g)] else [])"
| "rmatch (Chr C) (s, g) =
     (case s of [] \<Rightarrow> [] | c # cs \<Rightarrow> if cmem C c then [(cs, g)] else [])"
| "rmatch (Star C) (s, g) = map (\<lambda>r. (r, g)) (greedy C s)"
| "rmatch (Plus C) (s, g) =
     (case s of [] \<Rightarrow> [] | c # cs \<Rightarrow> if cmem C c then map (\<lambda>r. (r, g)) (greedy C cs) else [])"
| "rmatch Eol (s, g) =
     (case s of [] \<Rightarrow> [(s, g)] | c # cs \<Rightarrow> if c = CHR 0x0A then [(s, g)] else [])"
| "rmatch (Seq a b) st = concat (map (rmatch b) (rmatch a st))"
| "rmatch (Alt a b) st = rmatch a st @ rmatch b st"
| "rmatch (Group n r) (s, g) =
     map (\<lambda>(s', g'). (s', g'(n \<mapsto> take (length s - length s') s))) (rmatch r (s, g))"

definition seq :: "regex list \<Rightarrow> regex" where
  "seq rs = foldr Seq rs (Lit [])"

subsection \<open>Replacement templates and \<^verbatim>\<open>re.sub\<close>\<close>

datatype titem = Txt string | Ref nat

type_synonym template = "titem list"

text \<open>A group that took no part in the match expands to the empty string.\<close>

fun expand :: "template \<Rightarrow> caps \<Rightarrow> string" where
  "expand [] g = []"
| "expand (Txt w # t) g = w @ expand t g"
| "expand (Ref n # t) g = (case g n of None \<Rightarrow> [] | Some v \<Rightarrow> v) @ expand t g"

definition no_caps :: caps where
  "no_caps = (\<lambda>n. None)"

text \<open>
  The scan of \<^verbatim>\<open>re.sub\<close>: at each position the first match in priority order is
  replaced and the scan goes on behind it; where nothing matches, one character is
  copied. After an empty match the engine must advance: at the same position only a
  non-empty match counts (Python 3.7 and later); \<open>adv\<close> is that flag. With \<open>adv\<close> set
  the filter keeps non-empty matches only, so the branch \<open>if adv then []\<close> is never taken:
  it is there for the termination proof. None of the scripts' patterns can match the empty
  string, since each holds a literal character outside every repetition.
\<close>

function sub_scan :: "regex \<Rightarrow> template \<Rightarrow> bool \<Rightarrow> string \<Rightarrow> string" where
  "sub_scan p t adv s =
     (case filter (\<lambda>(s', g). \<not> adv \<or> length s' < length s) (rmatch p (s, no_caps)) of
        [] \<Rightarrow> (case s of [] \<Rightarrow> [] | c # cs \<Rightarrow> c # sub_scan p t False cs)
      | (s', g) # _ \<Rightarrow>
          if length s' < length s then expand t g @ sub_scan p t False s'
          else if adv then []
          else expand t g @ sub_scan p t True s)"
  by pat_completeness auto
termination
  by (relation "measure (\<lambda>(p, t, adv, s). 2 * length s + (if adv then 0 else 1))") auto

declare sub_scan.simps [simp del]

text \<open>
  \<^verbatim>\<open>re.sub\<close> raises \<^verbatim>\<open>re.error\<close> (invalid group reference) when the replacement
  names a group the pattern does not have, whether or not anything matches. \<open>Ref n\<close> is
  the reference \<^verbatim>\<open>\n\<close> to group \<open>n\<close>; the scripts use the groups 1 to 5.
\<close>

datatype py_error = ReError | FileNotFoundError

fun ngroups :: "regex \<Rightarrow> nat" where
  "ngroups (Seq a b) = ngroups a + ngroups b"
| "ngroups (Alt a b) = ngroups a + ngroups b"
| "ngroups (Group n r) = Suc (ngroups r)"
| "ngroups r = 0"

fun ref_ok :: "nat \<Rightarrow> titem \<Rightarrow> bool" where
  "ref_ok k (Txt w) = True"
| "ref_ok k (Ref n) = (n \<le> k)"

definition re_sub :: "regex \<Rightarrow> template \<Rightarrow> string \<Rightarrow> py_error + string" where
  "re_sub p t s = (if list_all (ref_ok (ngroups p)) t then Inr (sub_scan p t False s) else Inl ReError)"

type_synonym rule = "regex \<times> template"

fun apply_rules :: "rule list \<Rightarrow> string \<Rightarrow> py_error + string" where
  "apply_rules [] s = Inr s"
| "apply_rules ((p, t) # rs) s =
     (case re_sub p t s of Inl e \<Rightarrow> Inl e | Inr s' \<Rightarrow> apply_rules rs s')"

subsection \<open>Pieces the patterns share\<close>

definition NL :: char where
  "NL = CHR 0x0A"

definition spc :: cset where
  "spc = Pos [SpaceC]"

text \<open>\<^verbatim>\<open>[a-zA-Z_]\<close> and \<^verbatim>\<open>[a-zA-Z0-9_]\<close>.\<close>

definition id0 :: cset where
  "id0 = Pos [Rng CHR ''a'' CHR ''z'', Rng CHR ''A'' CHR ''Z'', One CHR ''_'']"

definition idc :: cset where
  "idc = Pos [Rng CHR ''a'' CHR ''z'', Rng CHR ''A'' CHR ''Z'', Rng CHR ''0'' CHR ''9'', One CHR ''_'']"

text \<open>\<^verbatim>\<open>[a-zA-Z_][a-zA-Z0-9_]*\<close>\<close>

definition ident :: regex where
  "ident = Seq (Chr id0) (Star idc)"

text \<open>\<^verbatim>\<open>(w1|w2|...)\<close> without the group.\<close>

fun alts :: "string list \<Rightarrow> regex" where
  "alts [] = Chr (Pos [])"
| "alts [w] = Lit w"
| "alts (w # v # ws) = Alt (Lit w) (alts (v # ws))"

section \<open>The rule sets\<close>

subsection \<open>\<^verbatim>\<open>comprehensive_fix.py\<close>: the rewrites of \<^verbatim>\<open>fix_file_syntax\<close>\<close>

text \<open>\<^verbatim>\<open>re.sub(r'([a-zA-Z_][a-zA-Z0-9_]*:\s*[^,\n{}]+)\n(\s+)([a-zA-Z_][a-zA-Z0-9_]*:)', r'\1,\n\2\3', content)\<close>\<close>

definition cf_rule1 :: rule where
  "cf_rule1 =
     (seq [Group 1 (seq [ident, Lit '':'', Star spc,
                         Plus (Neg [One CHR '','', One NL, One CHR ''{'', One CHR ''}''])]),
           Lit [NL], Group 2 (Plus spc), Group 3 (seq [ident, Lit '':''])],
      [Ref 1, Txt ('','' @ [NL]), Ref 2, Ref 3])"

text \<open>\<^verbatim>\<open>re.sub(r'(\}|\))\n(\s+)([a-zA-Z_][a-zA-Z0-9_]*:)', r'\1,\n\2\3', content)\<close>\<close>

definition cf_rule2 :: rule where
  "cf_rule2 =
     (seq [Group 1 (alts [''}'', '')'']), Lit [NL], Group 2 (Plus spc),
           Group 3 (seq [ident, Lit '':''])],
      [Ref 1, Txt ('','' @ [NL]), Ref 2, Ref 3])"

text \<open>\<^verbatim>\<open>re.sub(r',\s*\)', r')', content)\<close>\<close>

definition cf_rule3 :: rule where
  "cf_rule3 =
     (seq [Lit '','', Star spc, Lit '')''], [Txt '')''])"

text \<open>\<^verbatim>\<open>re.sub(r'(\w+\([^)]*),\s*$', r'\1)', content, flags=re.MULTILINE)\<close>\<close>

definition cf_rule4 :: rule where
  "cf_rule4 =
     (seq [Group 1 (seq [Plus (Pos [WordC]), Lit ''('', Star (Neg [One CHR '')''])]),
           Lit '','', Star spc, Eol],
      [Ref 1, Txt '')''])"

text \<open>\<^verbatim>\<open>re.sub(r'\{,\s*', r'{ ', content)\<close>\<close>

definition cf_rule5 :: rule where
  "cf_rule5 =
     (seq [Lit ''{,'', Star spc], [Txt ''{ ''])"

text \<open>\<^verbatim>\<open>re.sub(r',\s*updatedAt:\s*new Date\(\)\}', r', updatedAt: new Date() }', content)\<close>\<close>

definition cf_rule6 :: rule where
  "cf_rule6 =
     (seq [Lit '','', Star spc, Lit ''updatedAt:'', Star spc, Lit ''new Date()}''],
      [Txt '', updatedAt: new Date() }''])"

text \<open>\<^verbatim>\<open>re.sub(r'\)\s*\)\s*\)', r'))', content)\<close>\<close>

definition cf_rule7 :: rule where
  "cf_rule7 =
     (seq [Lit '')'', Star spc, Lit '')'', Star spc, Lit '')''], [Txt ''))''])"

text \<open>The statements run one after the other, each on the result of the one before.\<close>

definition cf_rules :: "rule list" where
  "cf_rules = [cf_rule1, cf_rule2, cf_rule3, cf_rule4, cf_rule5, cf_rule6, cf_rule7]"

subsection \<open>\<^verbatim>\<open>fix_syntax_errors.py\<close>: \<^verbatim>\<open>fix_syntax_errors\<close>\<close>

text \<open>\<^verbatim>\<open>re.sub(r'([a-zA-Z_][a-zA-Z0-9_]*\([^)]*),\s*\n', r'\1)\n', content)\<close>\<close>

definition fse_rule1 :: rule where
  "fse_rule1 =
     (seq [Group 1 (seq [ident, Lit ''('', Star (Neg [One CHR '')''])]),
           Lit '','', Star spc, Lit [NL]],
      [Ref 1, Txt ('')'' @ [NL])])"

text \<open>\<^verbatim>\<open>re.sub(r'([\s\t]*[a-zA-Z_][a-zA-Z0-9_]*:\s*[^,\n]+),\s*$', r'\1', content, flags=re.MULTILINE)\<close>\<close>

definition fse_rule2 :: rule where
  "fse_rule2 =
     (seq [Group 1 (seq [Star (Pos [SpaceC, One (CHR 0x09)]), ident, Lit '':'', Star spc,
                         Plus (Neg [One CHR '','', One NL])]),
           Lit '','', Star spc, Eol],
      [Ref 1])"

text \<open>\<^verbatim>\<open>re.sub(r'new Date\(,', r'new Date(),', content)\<close>\<close>

definition fse_rule3 :: rule where
  "fse_rule3 =
     (Lit ''new Date(,'', [Txt ''new Date(),''])"

text \<open>\<^verbatim>\<open>re.sub(r'\{,\s*updatedAt', r'{ updatedAt', content)\<close>\<close>

definition fse_rule4 :: rule where
  "fse_rule4 =
     (seq [Lit ''{,'', Star spc, Lit ''updatedAt''], [Txt ''{ updatedAt''])"

text \<open>\<^verbatim>\<open>re.sub(r'([^{]),\s*updatedAt:\s*new Date\(\)\}', r'\1, updatedAt: new Date() }', content)\<close>\<close>

definition fse_rule5 :: rule where
  "fse_rule5 =
     (seq [Group 1 (Chr (Neg [One CHR ''{''])), Lit '','', Star spc, Lit ''updatedAt:'',
           Star spc, Lit ''new Date()}''],
      [Ref 1, Txt '', updatedAt: new Date() }''])"

text \<open>\<^verbatim>\<open>re.sub(r'\$\{([^}]+),\s*updatedAt:\s*new Date\(\)\}', r'${\1}', content)\<close>\<close>

definition fse_rule6 :: rule where
  "fse_rule6 =
     (seq [Lit ''${'', Group 1 (Plus (Neg [One CHR ''}''])), Lit '','', Star spc,
           Lit ''updatedAt:'', Star spc, Lit ''new Date()}''],
      [Txt ''${'', Ref 1, Txt ''}''])"

text \<open>\<^verbatim>\<open>re.sub(r'(getPaginationMeta\([^)]+limit),\s*\n', r'\1)\n', content)\<close>\<close>

definition fse_rule7 :: rule where
  "fse_rule7 =
     (seq [Group 1 (seq [Lit ''getPaginationMeta('', Plus (Neg [One CHR '')'']), Lit ''limit'']),
           Lit '','', Star spc, Lit [NL]],
      [Ref 1, Txt ('')'' @ [NL])])"

definition fse_rules :: "rule list" where
  "fse_rules = [fse_rule1, fse_rule2, fse_rule3, fse_rule4, fse_rule5, fse_rule6, fse_rule7]"

definition fix_syntax_errors :: "string \<Rightarrow> py_error + string" where
  "fix_syntax_errors content = apply_rules fse_rules content"

subsection \<open>\<^verbatim>\<open>fix_remaining_syntax.py\<close>\<close>

text \<open>The five entries of the list \<^verbatim>\<open>patterns\<close>, then the two statements after the loop.\<close>

text \<open>\<^verbatim>\<open>(r'(\s+)(gte|lte):\s*([a-zA-Z_][a-zA-Z0-9_]*)\s*\n(\s+)(gte|lte):', r'\1\2: \3,\n\4\5:')\<close>\<close>

definition frs_rule1 :: rule where
  "frs_rule1 =
     (seq [Group 1 (Plus spc), Group 2 (alts [''gte'', ''lte'']), Lit '':'', Star spc,
           Group 3 ident, Star spc, Lit [NL], Group 4 (Plus spc),
           Group 5 (alts [''gte'', ''lte'']), Lit '':''],
      [Ref 1, Ref 2, Txt '': '', Ref 3, Txt ('','' @ [NL]), Ref 4, Ref 5, Txt '':''])"

text \<open>\<^verbatim>\<open>(r'(\s+)([a-zA-Z_][a-zA-Z0-9_]*):\s*(true|false|null|[a-zA-Z_][a-zA-Z0-9_]*)\s*\n(\s+)([a-zA-Z_][a-zA-Z0-9_]*):', r'\1\2: \3,\n\4\5:')\<close>\<close>

definition frs_rule2 :: rule where
  "frs_rule2 =
     (seq [Group 1 (Plus spc), Group 2 ident, Lit '':'', Star spc,
           Group 3 (Alt (Lit ''true'') (Alt (Lit ''false'') (Alt (Lit ''null'') ident))),
           Star spc, Lit [NL], Group 4 (Plus spc), Group 5 ident, Lit '':''],
      [Ref 1, Ref 2, Txt '': '', Ref 3, Txt ('','' @ [NL]), Ref 4, Ref 5, Txt '':''])"

text \<open>\<^verbatim>\<open>(r'(\}\))\s*\n(\s+)(skip|take|orderBy|where|include):', r'\1,\n\2\3:')\<close>\<close>

definition frs_rule3 :: rule where
  "frs_rule3 =
     (seq [Group 1 (Lit ''})''), Star spc, Lit [NL], Group 2 (Plus spc),
           Group 3 (alts [''skip'', ''take'', ''orderBy'', ''where'', ''include'']), Lit '':''],
      [Ref 1, Txt ('','' @ [NL]), Ref 2, Ref 3, Txt '':''])"

text \<open>\<^verbatim>\<open>(r'(\s+)(type|dateRange|data|meta|filters|schedule|config|message|reportId):\s*([^\n,]+)\s*\n(\s+)([a-zA-Z_][a-zA-Z0-9_]*):', r'\1\2: \3,\n\4\5:')\<close>\<close>

definition frs_rule4 :: rule where
  "frs_rule4 =
     (seq [Group 1 (Plus spc),
           Group 2 (alts [''type'', ''dateRange'', ''data'', ''meta'',
                           ''filters'', ''schedule'', ''config'',
                           ''message'', ''reportId'']),
           Lit '':'', Star spc, Group 3 (Plus (Neg [One NL, One CHR '',''])), Star spc, Lit [NL],
           Group 4 (Plus spc), Group 5 ident, Lit '':''],
      [Ref 1, Ref 2, Txt '': '', Ref 3, Txt ('','' @ [NL]), Ref 4, Ref 5, Txt '':''])"

text \<open>The fifth entry has the shape of the fourth, with these property names:\<close>

definition nested_names :: "string list" where
  "nested_names =
    [''id'', ''timestamp'', ''action'', ''resource'', ''resourceId'',
     ''outcome'', ''details'', ''ipAddress'', ''userAgent'', ''email'',
     ''displayName'', ''role'', ''createdAt'', ''severityLevel'',
     ''triggerType'', ''interventionType'', ''responseTime'', ''resolved'',
     ''resolvedAt'', ''emergencyContactUsed'', ''userAnonymousId'',
     ''reason'', ''evidence'', ''duration'', ''appealable'', ''appealed'',
     ''expiresAt'', ''moderator'', ''targetUser'', ''detectedAt'', ''type'',
     ''severity'', ''context'', ''indicators'', ''handled'', ''handledAt'',
     ''handledBy'', ''actions'', ''notes'', ''lastLoginAt'',
     ''lastActiveAt'', ''moodEntries'', ''journalEntries'', ''appointments'',
     ''name'', ''description'', ''createdBy'']"

text \<open>\<^verbatim>\<open>(r'(\s+)(id|timestamp|...|createdBy):\s*([^\n,]+)\s*\n(\s+)([a-zA-Z_][a-zA-Z0-9_]*):', r'\1\2: \3,\n\4\5:')\<close>\<close>

definition frs_rule5 :: rule where
  "frs_rule5 =
     (seq [Group 1 (Plus spc), Group 2 (alts nested_names),
           Lit '':'', Star spc, Group 3 (Plus (Neg [One NL, One CHR '',''])), Star spc, Lit [NL],
           Group 4 (Plus spc), Group 5 ident, Lit '':''],
      [Ref 1, Ref 2, Txt '': '', Ref 3, Txt ('','' @ [NL]), Ref 4, Ref 5, Txt '':''])"

text \<open>\<^verbatim>\<open>content = re.sub(r'(\s+where)\s*\n', r'\1,\n', content)\<close>\<close>

definition frs_rule6 :: rule where
  "frs_rule6 =
     (seq [Group 1 (seq [Plus spc, Lit ''where'']), Star spc, Lit [NL]],
      [Ref 1, Txt ('','' @ [NL])])"

text \<open>\<^verbatim>\<open>content = re.sub(r'(\s+include:\s*\{[^}]+\})\s*\n(\s+)(skip|take|orderBy):', r'\1,\n\2\3:', content)\<close>\<close>

definition frs_rule7 :: rule where
  "frs_rule7 =
     (seq [Group 1 (seq [Plus spc, Lit ''include:'', Star spc, Lit ''{'',
                         Plus (Neg [One CHR ''}'']), Lit ''}'']),
           Star spc, Lit [NL], Group 2 (Plus spc),
           Group 3 (alts [''skip'', ''take'', ''orderBy'']), Lit '':''],
      [Ref 1, Txt ('','' @ [NL]), Ref 2, Ref 3, Txt '':''])"

definition patterns :: "rule list" where
  "patterns = [frs_rule1, frs_rule2, frs_rule3, frs_rule4, frs_rule5]"

definition frs_rules :: "rule list" where
  "frs_rules = patterns @ [frs_rule6, frs_rule7]"

text \<open>The module body: the loop over \<^verbatim>\<open>patterns\<close>, then the two single statements.\<close>

definition then_r :: "py_error + 'a \<Rightarrow> ('a \<Rightarrow> py_error + 'b) \<Rightarrow> py_error + 'b" where
  "then_r x f = (case x of Inl e \<Rightarrow> Inl e | Inr v \<Rightarrow> f v)"

definition frs_content :: "string \<Rightarrow> py_error + string" where
  "frs_content content =
     then_r (apply_rules patterns content) (\<lambda>c1.
     then_r (re_sub (fst frs_rule6) (snd frs_rule6) c1) (\<lambda>c2.
     re_sub (fst frs_rule7) (snd frs_rule7) c2))"

section \<open>Files, output and the three scripts\<close>

text \<open>
  The file system maps a path to the text that reading the file yields (\<open>None\<close>: no
  such file); files are taken to be readable and writable UTF-8 text, so the only error of
  file access in the model is the missing file. \<open>stdout\<close> is what the script has printed
  so far, one entry for each \<^verbatim>\<open>print\<close>, and \<open>wlog\<close> records every file that was opened
  with \<^verbatim>\<open>open(path, 'w')\<close> and written, in order, so that "no write occurs" can be told
  from "the same text was written".
\<close>

type_synonym path = string

datatype msg =
    Fixed path               \<comment> \<open>\<^verbatim>\<open>Fixed: {file_path}\<close>\<close>
  | TotalFixed nat           \<comment> \<open>\<^verbatim>\<open>Total files fixed: {fixed_count}\<close>\<close>
  | Processing path          \<comment> \<open>\<^verbatim>\<open>Processing {file_path}...\<close>\<close>
  | FixedSyntax path         \<comment> \<open>\<^verbatim>\<open>Fixed syntax errors in {file_path}\<close>\<close>
  | NoChanges path           \<comment> \<open>\<^verbatim>\<open>No changes needed in {file_path}\<close>\<close>
  | NotFound path            \<comment> \<open>\<^verbatim>\<open>File not found: {file_path}\<close>\<close>
  | Done                     \<comment> \<open>\<^verbatim>\<open>Done!\<close>\<close>
  | FixedRemaining path      \<comment> \<open>\<^verbatim>\<open>Fixed remaining syntax errors in {file_path}\<close>\<close>

record world =
  fs :: "path \<Rightarrow> string option"
  stdout :: "msg list"
  wlog :: "path list"

definition print :: "msg \<Rightarrow> world \<Rightarrow> world" where
  "print m w = w\<lparr>stdout := stdout w @ [m]\<rparr>"

definition write_file :: "path \<Rightarrow> string \<Rightarrow> world \<Rightarrow> world" where
  "write_file p c w = w\<lparr>fs := (fs w)(p \<mapsto> c), wlog := wlog w @ [p]\<rparr>"

subsection \<open>\<^verbatim>\<open>comprehensive_fix.py\<close>\<close>

definition fix_file_syntax :: "path \<Rightarrow> world \<Rightarrow> py_error + (bool \<times> world)" where
  "fix_file_syntax file_path w =
     (case fs w file_path of
        None \<Rightarrow> Inr (False, w)
      | Some original_content \<Rightarrow>
          (case apply_rules cf_rules original_content of
             Inl e \<Rightarrow> Inl e
           | Inr content \<Rightarrow>
               if content \<noteq> original_content
               then Inr (True, write_file file_path content w)
               else Inr (False, w)))"

text \<open>The loop over \<^verbatim>\<open>all_files\<close> (the result of the two \<^verbatim>\<open>glob.glob\<close> calls, a
  parameter here), carrying \<^verbatim>\<open>fixed_count\<close>.\<close>

fun cf_loop :: "path list \<Rightarrow> nat \<Rightarrow> world \<Rightarrow> py_error + (nat \<times> world)" where
  "cf_loop [] fixed_count w = Inr (fixed_count, w)"
| "cf_loop (file_path # rest) fixed_count w =
     (case fix_file_syntax file_path w of
        Inl e \<Rightarrow> Inl e
      | Inr (True, w') \<Rightarrow> cf_loop rest (fixed_count + 1) (print (Fixed file_path) w')
      | Inr (False, w') \<Rightarrow> cf_loop rest fixed_count w')"

definition cf_main :: "path list \<Rightarrow> world \<Rightarrow> py_error + world" where
  "cf_main all_files w =
     (case cf_loop all_files 0 w of
        Inl e \<Rightarrow> Inl e
      | Inr (fixed_count, w') \<Rightarrow> Inr (print (TotalFixed fixed_count) w'))"

subsection \<open>\<^verbatim>\<open>fix_syntax_errors.py\<close>\<close>

definition files_to_fix :: "path list" where
  "files_to_fix =
    [''src/app/api/admin/reports/route.ts'',
     ''src/app/api/admin/system-health/route.ts'',
     ''src/app/api/admin/users/route.ts'',
     ''src/app/api/ai/chat/route.ts'',
     ''src/app/api/audit/events/route.ts'',
     ''src/app/api/audit/reports/route.ts'',
     ''src/app/api/auth/mfa/manage/route.ts'',
     ''src/app/api/auth/mfa/setup/route.ts'',
     ''src/app/api/auth/register/route.ts'',
     ''src/app/api/auth/reset-password/route.ts'',
     ''src/app/api/auth/sessions/route.ts'',
     ''src/app/api/auth/verify-email/route.ts'',
     ''src/app/api/community/chat-rooms/route.ts'',
     ''src/app/api/community/comments/route.ts'']"

text \<open>One turn of the loop over \<^verbatim>\<open>files_to_fix\<close>.\<close>

definition fse_body :: "path \<Rightarrow> world \<Rightarrow> py_error + world" where
  "fse_body file_path w =
     (case fs w file_path of
        Some content \<Rightarrow>
          (case fix_syntax_errors content of
             Inl e \<Rightarrow> Inl e
           | Inr fixed_content \<Rightarrow>
               if content \<noteq> fixed_content
               then Inr (print (FixedSyntax file_path)
                          (write_file file_path fixed_content (print (Processing file_path) w)))
               else Inr (print (NoChanges file_path) (print (Processing file_path) w)))
      | None \<Rightarrow> Inr (print (NotFound file_path) w))"

fun fse_loop :: "path list \<Rightarrow> world \<Rightarrow> py_error + world" where
  "fse_loop [] w = Inr w"
| "fse_loop (file_path # rest) w =
     (case fse_body file_path w of Inl e \<Rightarrow> Inl e | Inr w' \<Rightarrow> fse_loop rest w')"

definition fse_run :: "path list \<Rightarrow> world \<Rightarrow> py_error + world" where
  "fse_run files w =
     (case fse_loop files w of Inl e \<Rightarrow> Inl e | Inr w' \<Rightarrow> Inr (print Done w'))"

definition fse_main :: "world \<Rightarrow> py_error + world" where
  "fse_main w = fse_run files_to_fix w"

subsection \<open>\<^verbatim>\<open>fix_remaining_syntax.py\<close>\<close>

definition frs_file_path :: path where
  "frs_file_path = ''src/app/api/admin/reports/route.ts''"

text \<open>\<^verbatim>\<open>open(file_path, 'r')\<close> on a missing file raises; the write at the end is not
  guarded by a comparison.\<close>

definition frs_main :: "world \<Rightarrow> py_error + world" where
  "frs_main w =
     (case fs w frs_file_path of
        None \<Rightarrow> Inl FileNotFoundError
      | Some content \<Rightarrow>
          (case frs_content content of
             Inl e \<Rightarrow> Inl e
           | Inr content' \<Rightarrow>
               Inr (print (FixedRemaining frs_file_path) (write_file frs_file_path content' w))))"

section \<open>Notions used in the statements\<close>

text \<open>A replacement template fits its pattern when it names no group the pattern lacks.\<close>

definition wf_rule :: "rule \<Rightarrow> bool" where
  "wf_rule r = list_all (ref_ok (ngroups (fst r))) (snd r)"

text \<open>The suffixes of a buffer: the positions at which the scan may try a match.\<close>

fun tails :: "string \<Rightarrow> string list" where
  "tails [] = [[]]"
| "tails (c # cs) = (c # cs) # tails cs"

definition matches_at :: "regex \<Rightarrow> string \<Rightarrow> bool" where
  "matches_at p u = (case rmatch p (u, no_caps) of [] \<Rightarrow> False | m # ms \<Rightarrow> True)"

definition matches_somewhere :: "regex \<Rightarrow> string \<Rightarrow> bool" where
  "matches_somewhere p s = list_ex (matches_at p) (tails s)"

text \<open>The verdict of a pass: the transformed buffer differs from the original.\<close>

definition changed :: "rule list \<Rightarrow> string \<Rightarrow> bool" where
  "changed rs s = (apply_rules rs s \<noteq> Inr s)"

text \<open>The buffer after a pass (the buffer itself, should the pass raise).\<close>

definition rewritten :: "rule list \<Rightarrow> string \<Rightarrow> string" where
  "rewritten rs s = (case apply_rules rs s of Inl e \<Rightarrow> s | Inr s' \<Rightarrow> s')"

text \<open>Whether a pass over the file at a path would change it, and the files after every
  file of a list has been passed over once.\<close>

definition changes :: "rule list \<Rightarrow> world \<Rightarrow> path \<Rightarrow> bool" where
  "changes rs w p = (case fs w p of None \<Rightarrow> False | Some c \<Rightarrow> rewritten rs c \<noteq> c)"

definition files_after :: "rule list \<Rightarrow> path list \<Rightarrow> (path \<Rightarrow> string option) \<Rightarrow> path \<Rightarrow> string option" where
  "files_after rs ps f = (\<lambda>p. if p \<in> set ps then map_option (rewritten rs) (f p) else f p)"

text \<open>A file system holding one file, with nothing printed or written yet.\<close>

definition one_file :: "path \<Rightarrow> string \<Rightarrow> world" where
  "one_file p c = \<lparr>fs = (\<lambda>q. if q = p then Some c else None), stdout = [], wlog = []\<rparr>"

definition no_files :: world where
  "no_files = \<lparr>fs = (\<lambda>q. None), stdout = [], wlog = []\<rparr>"

text \<open>The characters a pattern can consume.\<close>

fun consumes :: "regex \<Rightarrow> char \<Rightarrow> bool" where
  "consumes (Lit w) c = (c \<in> set w)"
| "consumes (Chr C) c = cmem C c"
| "consumes (Star C) c = cmem C c"
| "consumes (Plus C) c = cmem C c"
| "consumes Eol c = False"
| "consumes (Seq a b) c = (consumes a c \<or> consumes b c)"
| "consumes (Alt a b) c = (consumes a c \<or> consumes b c)"
| "consumes (Group n r) c = consumes r c"

text \<open>The trailing-comma pattern of \<^verbatim>\<open>fix_syntax_errors\<close> taken apart: what its group
  holds, and what follows the group.\<close>

definition tc_body :: regex where
  "tc_body = seq [Star (Pos [SpaceC, One (CHR 0x09)]), ident, Lit '':'', Star spc,
                  Plus (Neg [One CHR '','', One NL])]"

definition tc_tail :: regex where
  "tc_tail = seq [Lit '','', Star spc, Eol]"

text \<open>The line that starts here holds a character that is not white space.\<close>

fun text_on_line :: "string \<Rightarrow> bool" where
  "text_on_line [] = False"
| "text_on_line (c # cs) = (if c = NL then False else if is_space c then text_on_line cs else True)"

text \<open>The inputs of the specification's example scenarios 1 to 5, and the line pair of
  scenario 1 with both lines indented by two spaces.\<close>

definition scenario1 :: string where
  "scenario1 = ''gte: startDate'' @ [NL] @ ''lte: endDate''"

definition scenario1_indented :: string where
  "scenario1_indented = ''  gte: startDate'' @ [NL] @ ''  lte: endDate''"

definition scenario2 :: string where
  "scenario2 = ''foo(bar,'' @ [NL] @ '')''"

definition scenario3 :: string where
  "scenario3 = ''new Date(,''"

definition scenario4 :: string where
  "scenario4 = ''{, updatedAt: new Date()}''"

definition scenario5 :: string where
  "scenario5 = ''foo(a, b)))''"

text \<open>A pass reports changed = true and the second pass, on its result, reports
  changed = false.\<close>

definition settles :: "rule list \<Rightarrow> string \<Rightarrow> bool" where
  "settles rs s = (changed rs s \<and> \<not> changed rs (rewritten rs s))"

section \<open>The rewrites never raise\<close>

lemma all_wf: "list_all wf_rule (cf_rules @ fse_rules @ frs_rules)"
  by code_simp

lemma cf_wf: "list_all wf_rule cf_rules" and fse_wf: "list_all wf_rule fse_rules"
  and frs_wf: "list_all wf_rule frs_rules"
  using all_wf by simp_all

lemma re_sub_wf: "wf_rule (p, t) \<Longrightarrow> re_sub p t s = Inr (sub_scan p t False s)"
  by (simp add: re_sub_def wf_rule_def)

lemma apply_rules_total: "list_all wf_rule rs \<Longrightarrow> \<exists>s'. apply_rules rs s = Inr s'"
proof (induction rs arbitrary: s)
  case Nil
  then show ?case by simp
next
  case (Cons r rs)
  obtain p t where r: "r = (p, t)" by (cases r)
  from Cons.prems have "wf_rule (p, t)" and rest: "list_all wf_rule rs" by (simp_all add: r)
  then have "re_sub p t s = Inr (sub_scan p t False s)" by (simp add: re_sub_wf)
  with Cons.IH[OF rest] show ?case by (simp add: r)
qed

lemma sub_scan_no_match:
  "\<not> matches_somewhere p s \<Longrightarrow> sub_scan p t adv s = s"
proof (induction s arbitrary: adv)
  case Nil
  then have "rmatch p ([], no_caps) = []"
    by (simp add: matches_somewhere_def matches_at_def split: list.splits)
  then show ?case by (subst sub_scan.simps) simp
next
  case (Cons c cs)
  then have m: "rmatch p (c # cs, no_caps) = []" and r: "\<not> matches_somewhere p cs"
    by (simp_all add: matches_somewhere_def matches_at_def split: list.splits)
  show ?case by (subst sub_scan.simps) (simp add: m Cons.IH[OF r])
qed

lemma apply_rules_append:
  "apply_rules (xs @ ys) s = then_r (apply_rules xs s) (apply_rules ys)"
proof (induction xs arbitrary: s)
  case Nil
  then show ?case by (simp add: then_r_def)
next
  case (Cons r xs)
  obtain p t where r: "r = (p, t)" by (cases r)
  show ?case by (simp add: r Cons.IH then_r_def split: sum.splits)
qed

lemma frs_content_rules: "frs_content s = apply_rules frs_rules s"
proof -
  obtain p6 t6 where r6: "frs_rule6 = (p6, t6)" by (cases frs_rule6)
  obtain p7 t7 where r7: "frs_rule7 = (p7, t7)" by (cases frs_rule7)
  show ?thesis
    by (simp add: frs_content_def frs_rules_def apply_rules_append r6 r7 then_r_def
        split: sum.splits)
qed

text \<open>
  C9: for every input string, every single rule of the three rule sets, and the sequential
  fold of each whole rule set (also in the shapes \<^verbatim>\<open>fix_syntax_errors\<close> and the module
  body of \<^verbatim>\<open>fix_remaining_syntax.py\<close> give it), returns a string and raises no
  error; the scan is a total function, so it also always returns. A rule whose pattern
  matches at no position returns the buffer unchanged.
\<close>

theorem rules_never_raise:
  assumes "rs \<in> {cf_rules, fse_rules, frs_rules}"
  shows "(\<exists>s'. apply_rules rs s = Inr s')
    \<and> (\<forall>(p, t) \<in> set rs. (\<exists>s'. re_sub p t s = Inr s')
          \<and> (\<not> matches_somewhere p s \<longrightarrow> re_sub p t s = Inr s))
    \<and> (\<exists>s'. fix_syntax_errors s = Inr s') \<and> (\<exists>s'. frs_content s = Inr s')"
proof -
  from assms have wf: "list_all wf_rule rs"
    using cf_wf fse_wf frs_wf by auto
  have one: "(\<exists>s'. re_sub p t s = Inr s') \<and> (\<not> matches_somewhere p s \<longrightarrow> re_sub p t s = Inr s)"
    if "(p, t) \<in> set rs" for p t
  proof -
    from wf that have "wf_rule (p, t)" by (auto simp: list_all_iff)
    then have "re_sub p t s = Inr (sub_scan p t False s)" by (rule re_sub_wf)
    then show ?thesis by (simp add: sub_scan_no_match)
  qed
  have "\<exists>s'. apply_rules rs s = Inr s'" using wf by (rule apply_rules_total)
  moreover have "\<exists>s'. fix_syntax_errors s = Inr s'"
    unfolding fix_syntax_errors_def using fse_wf by (rule apply_rules_total)
  moreover have "\<exists>s'. frs_content s = Inr s'"
    unfolding frs_content_rules using frs_wf by (rule apply_rules_total)
  ultimately show ?thesis using one by auto
qed

text \<open>C9, at a concrete input: the stray-comma rule on \<^verbatim>\<open>foo(bar)\<close>.\<close>

theorem rules_never_raise_witness:
  "cf_rules \<in> {cf_rules, fse_rules, frs_rules}
   \<and> (\<exists>s'. apply_rules cf_rules ''foo(bar)'' = Inr s')
   \<and> \<not> matches_somewhere (fst cf_rule3) ''foo(bar)''
   \<and> re_sub (fst cf_rule3) (snd cf_rule3) ''foo(bar)'' = Inr ''foo(bar)''"
proof -
  have m: "cf_rules \<in> {cf_rules, fse_rules, frs_rules}" by simp
  have r: "(fst cf_rule3, snd cf_rule3) \<in> set cf_rules" by (simp add: cf_rules_def)
  have n: "\<not> matches_somewhere (fst cf_rule3) ''foo(bar)''" by code_simp
  from rules_never_raise [OF m, of "''foo(bar)''"] r n show ?thesis by blast
qed

section \<open>What the scripts do to the files\<close>

lemma cf_total: "\<exists>c'. apply_rules cf_rules c = Inr c'"
  using cf_wf by (rule apply_rules_total)

lemma fse_total: "\<exists>c'. fix_syntax_errors c = Inr c'"
  unfolding fix_syntax_errors_def using fse_wf by (rule apply_rules_total)

lemma frs_total: "\<exists>c'. frs_content c = Inr c'"
  unfolding frs_content_rules using frs_wf by (rule apply_rules_total)

lemma cf_rewritten: "apply_rules cf_rules c = Inr (rewritten cf_rules c)"
  using cf_total [of c] by (auto simp: rewritten_def)

lemma fse_rewritten: "fix_syntax_errors c = Inr (rewritten fse_rules c)"
  using fse_total [of c] by (auto simp: rewritten_def fix_syntax_errors_def)

lemma fs_print [simp]: "fs (print m w) = fs w"
  and wlog_print [simp]: "wlog (print m w) = wlog w"
  and stdout_print [simp]: "stdout (print m w) = stdout w @ [m]"
  by (simp_all add: print_def)

lemma fs_write [simp]: "fs (write_file p c w) = (fs w)(p \<mapsto> c)"
  and wlog_write [simp]: "wlog (write_file p c w) = wlog w @ [p]"
  and stdout_write [simp]: "stdout (write_file p c w) = stdout w"
  by (simp_all add: write_file_def)

lemma fix_file_syntax_Some:
  "fs w p = Some c \<Longrightarrow>
   fix_file_syntax p w =
     Inr (rewritten cf_rules c \<noteq> c,
          if rewritten cf_rules c \<noteq> c then write_file p (rewritten cf_rules c) w else w)"
  by (simp add: fix_file_syntax_def cf_rewritten)

lemma fix_file_syntax_None: "fs w p = None \<Longrightarrow> fix_file_syntax p w = Inr (False, w)"
  by (simp add: fix_file_syntax_def)

lemma fse_body_Some:
  "fs w p = Some c \<Longrightarrow>
   fse_body p w =
     Inr (if c \<noteq> rewritten fse_rules c
          then print (FixedSyntax p) (write_file p (rewritten fse_rules c) (print (Processing p) w))
          else print (NoChanges p) (print (Processing p) w))"
  by (simp add: fse_body_def fse_rewritten)

lemma fse_body_None: "fs w p = None \<Longrightarrow> fse_body p w = Inr (print (NotFound p) w)"
  by (simp add: fse_body_def)

subsection \<open>A missing file stays missing\<close>

lemma fix_file_syntax_frame:
  assumes "fs w q = None"
  shows "\<exists>b w'. fix_file_syntax p w = Inr (b, w') \<and> fs w' q = None
           \<and> (q \<in> set (wlog w') \<longrightarrow> q \<in> set (wlog w))
           \<and> stdout w' = stdout w"
proof (cases "fs w p")
  case None
  with assms show ?thesis by (auto simp: fix_file_syntax_None)
next
  case (Some c)
  with assms have "p \<noteq> q" by auto
  with assms Some show ?thesis by (auto simp: fix_file_syntax_Some)
qed

lemma cf_loop_frame:
  "fs w q = None \<Longrightarrow>
   \<exists>n' w'. cf_loop ps n w = Inr (n', w') \<and> fs w' q = None
      \<and> (q \<in> set (wlog w') \<longrightarrow> q \<in> set (wlog w))
      \<and> (Fixed q \<in> set (stdout w') \<longrightarrow> Fixed q \<in> set (stdout w))"
proof (induction ps arbitrary: n w)
  case Nil
  then show ?case by simp
next
  case (Cons p ps)
  from fix_file_syntax_frame [OF Cons.prems, of p] obtain b w1 where
    f: "fix_file_syntax p w = Inr (b, w1)" and n1: "fs w1 q = None"
    and l1: "q \<in> set (wlog w1) \<longrightarrow> q \<in> set (wlog w)" and o1: "stdout w1 = stdout w"
    by blast
  have pq: "b \<Longrightarrow> p \<noteq> q"
    using f Cons.prems by (auto simp: fix_file_syntax_def split: option.splits sum.splits if_splits)
  show ?case
  proof (cases b)
    case True
    have n2: "fs (print (Fixed p) w1) q = None" using n1 by simp
    from Cons.IH [OF n2, of "n + 1"] True f l1 o1 pq show ?thesis by auto
  next
    case False
    from Cons.IH [OF n1, of n] False f l1 o1 show ?thesis by auto
  qed
qed

lemma cf_loop_append:
  "cf_loop (xs @ ys) n w =
     (case cf_loop xs n w of Inl e \<Rightarrow> Inl e | Inr (n1, w1) \<Rightarrow> cf_loop ys n1 w1)"
  by (induction xs arbitrary: n w) (auto split: sum.splits bool.splits prod.splits)

lemma fse_body_frame:
  assumes "fs w q = None"
  shows "\<exists>w'. fse_body p w = Inr w' \<and> fs w' q = None
           \<and> (q \<in> set (wlog w') \<longrightarrow> q \<in> set (wlog w))
           \<and> set (stdout w) \<subseteq> set (stdout w')"
proof (cases "fs w p")
  case None
  with assms show ?thesis by (auto simp: fse_body_None)
next
  case (Some c)
  with assms have "p \<noteq> q" by auto
  with assms Some show ?thesis by (auto simp: fse_body_Some)
qed

lemma fse_loop_frame:
  "fs w q = None \<Longrightarrow>
   \<exists>w'. fse_loop ps w = Inr w' \<and> fs w' q = None
      \<and> (q \<in> set (wlog w') \<longrightarrow> q \<in> set (wlog w))
      \<and> set (stdout w) \<subseteq> set (stdout w')"
proof (induction ps arbitrary: w)
  case Nil
  then show ?case by simp
next
  case (Cons p ps)
  from fse_body_frame [OF Cons.prems, of p] obtain w1 where
    f: "fse_body p w = Inr w1" and n1: "fs w1 q = None"
    and l1: "q \<in> set (wlog w1) \<longrightarrow> q \<in> set (wlog w)"
    and o1: "set (stdout w) \<subseteq> set (stdout w1)"
    by blast
  from Cons.IH [OF n1] f l1 o1 show ?case by auto
qed

lemma fse_loop_append:
  "fse_loop (xs @ ys) w =
     (case fse_loop xs w of Inl e \<Rightarrow> Inl e | Inr w1 \<Rightarrow> fse_loop ys w1)"
  by (induction xs arbitrary: w) (auto split: sum.splits)

text \<open>
  C3 (amended): a path with no file behind it raises nothing and is never written.
  \<^verbatim>\<open>fix_syntax_errors.py\<close> reports it (\<^verbatim>\<open>File not found\<close>) and goes on with the
  rest of the list; it keeps no count of changed files. In \<^verbatim>\<open>comprehensive_fix.py\<close>,
  \<^verbatim>\<open>fix_file_syntax\<close> returns \<^verbatim>\<open>False\<close> without a report: the run is the one of the
  list without that path, so the path enters neither the output nor
  \<^verbatim>\<open>fixed_count\<close>.
\<close>

theorem missing_file_skipped:
  assumes "fs w p = None"
  shows "fse_body p w = Inr (print (NotFound p) w)
    \<and> (\<exists>w1. fse_loop pre w = Inr w1 \<and> fs w1 p = None
          \<and> fse_loop (pre @ p # post) w = fse_loop post (print (NotFound p) w1))
    \<and> (\<exists>w'. fse_run (pre @ p # post) w = Inr w' \<and> fs w' p = None
          \<and> NotFound p \<in> set (stdout w')
          \<and> (p \<in> set (wlog w') \<longrightarrow> p \<in> set (wlog w)))
    \<and> fix_file_syntax p w = Inr (False, w)
    \<and> cf_main (pre @ p # post) w = cf_main (pre @ post) w
    \<and> (\<exists>w'. cf_main (pre @ p # post) w = Inr w' \<and> fs w' p = None
          \<and> (p \<in> set (wlog w') \<longrightarrow> p \<in> set (wlog w))
          \<and> (Fixed p \<in> set (stdout w') \<longrightarrow> Fixed p \<in> set (stdout w)))"
proof -
  have a: "fse_body p w = Inr (print (NotFound p) w)"
    using assms by (rule fse_body_None)
  from fse_loop_frame [OF assms, of pre] obtain w1 where
    w1: "fse_loop pre w = Inr w1" "fs w1 p = None"
    "p \<in> set (wlog w1) \<longrightarrow> p \<in> set (wlog w)" by blast
  have b: "fse_loop (pre @ p # post) w = fse_loop post (print (NotFound p) w1)"
    using w1 by (simp add: fse_loop_append fse_body_None)
  have "fs (print (NotFound p) w1) p = None" using w1 by simp
  from fse_loop_frame [OF this, of post] obtain w2 where
    w2: "fse_loop post (print (NotFound p) w1) = Inr w2" "fs w2 p = None"
    "p \<in> set (wlog w2) \<longrightarrow> p \<in> set (wlog (print (NotFound p) w1))"
    "set (stdout (print (NotFound p) w1)) \<subseteq> set (stdout w2)" by blast
  have c: "\<exists>w'. fse_run (pre @ p # post) w = Inr w' \<and> fs w' p = None
          \<and> NotFound p \<in> set (stdout w')
          \<and> (p \<in> set (wlog w') \<longrightarrow> p \<in> set (wlog w))"
    using b w1 w2 by (auto simp: fse_run_def)
  have d: "fix_file_syntax p w = Inr (False, w)"
    using assms by (rule fix_file_syntax_None)
  from cf_loop_frame [OF assms, of pre 0] obtain n1 v1 where
    v1: "cf_loop pre 0 w = Inr (n1, v1)" "fs v1 p = None" by blast
  have e: "cf_loop (pre @ p # post) 0 w = cf_loop (pre @ post) 0 w"
    using v1 by (simp add: cf_loop_append fix_file_syntax_None)
  from cf_loop_frame [OF assms, of "pre @ post" 0] obtain n2 v2 where
    v2: "cf_loop (pre @ post) 0 w = Inr (n2, v2)" "fs v2 p = None"
      "p \<in> set (wlog v2) \<longrightarrow> p \<in> set (wlog w)"
      "Fixed p \<in> set (stdout v2) \<longrightarrow> Fixed p \<in> set (stdout w)" by blast
  have f: "cf_main (pre @ p # post) w = cf_main (pre @ post) w"
    using e by (simp add: cf_main_def)
  have g: "\<exists>w'. cf_main (pre @ p # post) w = Inr w' \<and> fs w' p = None
          \<and> (p \<in> set (wlog w') \<longrightarrow> p \<in> set (wlog w))
          \<and> (Fixed p \<in> set (stdout w') \<longrightarrow> Fixed p \<in> set (stdout w))"
    using e v2 by (auto simp: cf_main_def)
  from a b w1 c d f g show ?thesis by blast
qed


text \<open>
  C3 (amended), at a concrete input: \<^verbatim>\<open>a.ts\<close> is missing, \<^verbatim>\<open>b.ts\<close> exists.
\<close>

theorem missing_file_skipped_witness:
  "fs (one_file ''b.ts'' ''x'') ''a.ts'' = None
   \<and> fse_body ''a.ts'' (one_file ''b.ts'' ''x'') = Inr (print (NotFound ''a.ts'') (one_file ''b.ts'' ''x''))
   \<and> fix_file_syntax ''a.ts'' (one_file ''b.ts'' ''x'') = Inr (False, one_file ''b.ts'' ''x'')
   \<and> cf_main [''a.ts'', ''b.ts''] (one_file ''b.ts'' ''x'') = cf_main [''b.ts''] (one_file ''b.ts'' ''x'')"
proof -
  have h: "fs (one_file ''b.ts'' ''x'') ''a.ts'' = None" by (simp add: one_file_def)
  from missing_file_skipped [OF h, of "[]" "[''b.ts'']"] h show ?thesis by simp
qed

text \<open>
  C3 (as stated): every missing path is reported as missing. \<^verbatim>\<open>comprehensive_fix.py\<close>
  run on a missing path prints the total only.
\<close>

theorem missing_file_not_reported:
  "fs no_files ''a.ts'' = None
   \<and> (case cf_main [''a.ts''] no_files of Inl e \<Rightarrow> False | Inr w' \<Rightarrow> stdout w' = [TotalFixed 0])"
  by (simp add: no_files_def cf_main_def fix_file_syntax_def print_def)

subsection \<open>Writing back\<close>

text \<open>
  C2 (amended): \<^verbatim>\<open>fix_file_syntax\<close> and the loop body of \<^verbatim>\<open>fix_syntax_errors.py\<close>
  write the file back if and only if the transformed buffer differs from the original
  (exact string comparison); when it does not, nothing is written and the files are as
  before. \<^verbatim>\<open>fix_remaining_syntax.py\<close> always writes its file; when its rules leave the
  content identical, the text on disk is the same as before.
\<close>

theorem persistence_gated_on_change:
  assumes "fs w p = Some c"
  shows "(\<exists>b w'. fix_file_syntax p w = Inr (b, w')
           \<and> b = (rewritten cf_rules c \<noteq> c)
           \<and> wlog w' = (if rewritten cf_rules c \<noteq> c then wlog w @ [p] else wlog w)
           \<and> fs w' = (if rewritten cf_rules c \<noteq> c then (fs w)(p \<mapsto> rewritten cf_rules c) else fs w))
    \<and> (\<exists>w'. fse_body p w = Inr w'
           \<and> wlog w' = (if rewritten fse_rules c \<noteq> c then wlog w @ [p] else wlog w)
           \<and> fs w' = (if rewritten fse_rules c \<noteq> c then (fs w)(p \<mapsto> rewritten fse_rules c) else fs w))
    \<and> (p = frs_file_path \<longrightarrow>
         (\<exists>c' w'. frs_content c = Inr c' \<and> frs_main w = Inr w'
           \<and> wlog w' = wlog w @ [p] \<and> fs w' = (fs w)(p \<mapsto> c')
           \<and> (c' = c \<longrightarrow> fs w' = fs w)))"
proof -
  have a: "\<exists>b w'. fix_file_syntax p w = Inr (b, w')
           \<and> b = (rewritten cf_rules c \<noteq> c)
           \<and> wlog w' = (if rewritten cf_rules c \<noteq> c then wlog w @ [p] else wlog w)
           \<and> fs w' = (if rewritten cf_rules c \<noteq> c then (fs w)(p \<mapsto> rewritten cf_rules c) else fs w)"
    by (simp add: fix_file_syntax_Some [OF assms])
  have b: "\<exists>w'. fse_body p w = Inr w'
           \<and> wlog w' = (if rewritten fse_rules c \<noteq> c then wlog w @ [p] else wlog w)
           \<and> fs w' = (if rewritten fse_rules c \<noteq> c then (fs w)(p \<mapsto> rewritten fse_rules c) else fs w)"
    by (auto simp add: fse_body_Some [OF assms])
  have c: "\<exists>c' w'. frs_content c = Inr c' \<and> frs_main w = Inr w'
           \<and> wlog w' = wlog w @ [p] \<and> fs w' = (fs w)(p \<mapsto> c')
           \<and> (c' = c \<longrightarrow> fs w' = fs w)" if "p = frs_file_path"
  proof -
    obtain c' where c': "frs_content c = Inr c'" using frs_total by blast
    have "(fs w)(p \<mapsto> c) = fs w" using assms by (rule map_upd_triv)
    with c' assms that show ?thesis by (auto simp: frs_main_def)
  qed
  from a b c show ?thesis by blast
qed

text \<open>
  C2 (amended), at a concrete input: \<^verbatim>\<open>foo(bar, )\<close> is changed by the first rule set
  and left alone by the second.
\<close>

theorem persistence_gated_on_change_witness:
  "fs (one_file ''a.ts'' ''foo(bar, )'') ''a.ts'' = Some ''foo(bar, )''
   \<and> (\<exists>w'. fix_file_syntax ''a.ts'' (one_file ''a.ts'' ''foo(bar, )'') = Inr (True, w')
          \<and> wlog w' = [''a.ts''] \<and> fs w' ''a.ts'' = Some ''foo(bar)'')
   \<and> (\<exists>w'. fse_body ''a.ts'' (one_file ''a.ts'' ''foo(bar, )'') = Inr w'
          \<and> wlog w' = [] \<and> fs w' ''a.ts'' = Some ''foo(bar, )'')"
proof -
  have h: "fs (one_file ''a.ts'' ''foo(bar, )'') ''a.ts'' = Some ''foo(bar, )''"
    by (simp add: one_file_def)
  have r1: "rewritten cf_rules ''foo(bar, )'' = ''foo(bar)''" by code_simp
  have r2: "rewritten fse_rules ''foo(bar, )'' = ''foo(bar, )''" by code_simp
  have l: "wlog (one_file ''a.ts'' ''foo(bar, )'') = []" by (simp add: one_file_def)
  from persistence_gated_on_change [OF h] show ?thesis
    by (auto simp: r1 r2 l h)
qed

text \<open>
  C2 (as stated): no write occurs when the rule set leaves the content identical.
  \<^verbatim>\<open>fix_remaining_syntax.py\<close> writes its file although its rules leave \<^verbatim>\<open>x\<close> as it
  is.
\<close>

theorem unconditional_write:
  "frs_content ''x'' = Inr ''x''
   \<and> (case frs_main (one_file frs_file_path ''x'') of
         Inl e \<Rightarrow> False | Inr w' \<Rightarrow> wlog w' = [frs_file_path])"
proof -
  have e: "frs_content ''x'' = Inr ''x''"
    unfolding frs_content_def then_r_def by code_simp
  then show ?thesis by (simp add: frs_main_def one_file_def)
qed

subsection \<open>Each file on its own\<close>

lemma changes_cong:
  "(\<And>q. q \<in> set ps \<Longrightarrow> fs v q = fs w q) \<Longrightarrow> filter (changes rs v) ps = filter (changes rs w) ps"
  by (rule filter_cong) (simp_all add: changes_def)

lemma cf_loop_distinct:
  "distinct ps \<Longrightarrow>
   \<exists>w'. cf_loop ps n w = Inr (n + length (filter (changes cf_rules w) ps), w')
      \<and> fs w' = files_after cf_rules ps (fs w)
      \<and> wlog w' = wlog w @ filter (changes cf_rules w) ps"
proof (induction ps arbitrary: n w)
  case Nil
  then show ?case by (simp add: files_after_def)
next
  case (Cons p ps)
  then have d: "distinct ps" and np: "p \<notin> set ps" by simp_all
  show ?case
  proof (cases "fs w p")
    case None
    then have nc: "\<not> changes cf_rules w p" by (simp add: changes_def)
    from Cons.IH [OF d, of n w] obtain w' where
      w': "cf_loop ps n w = Inr (n + length (filter (changes cf_rules w) ps), w')"
      "fs w' = files_after cf_rules ps (fs w)"
      "wlog w' = wlog w @ filter (changes cf_rules w) ps" by blast
    have "files_after cf_rules ps (fs w) = files_after cf_rules (p # ps) (fs w)"
      using None by (auto simp: files_after_def)
    with w' nc None show ?thesis by (simp add: fix_file_syntax_None)
  next
    case (Some c)
    show ?thesis
    proof (cases "rewritten cf_rules c = c")
      case True
      then have nc: "\<not> changes cf_rules w p" using Some by (simp add: changes_def)
      from Cons.IH [OF d, of n w] obtain w' where
        w': "cf_loop ps n w = Inr (n + length (filter (changes cf_rules w) ps), w')"
        "fs w' = files_after cf_rules ps (fs w)"
        "wlog w' = wlog w @ filter (changes cf_rules w) ps" by blast
      have "files_after cf_rules ps (fs w) = files_after cf_rules (p # ps) (fs w)"
        using Some True by (auto simp: files_after_def)
      with w' nc Some True show ?thesis by (simp add: fix_file_syntax_Some)
    next
      case False
      then have ch: "changes cf_rules w p" using Some by (simp add: changes_def)
      define w1 where "w1 = print (Fixed p) (write_file p (rewritten cf_rules c) w)"
      have same: "fs w1 q = fs w q" if "q \<in> set ps" for q
        using that np by (auto simp: w1_def)
      from Cons.IH [OF d, of "n + 1" w1] obtain w' where
        w': "cf_loop ps (n + 1) w1 = Inr (n + 1 + length (filter (changes cf_rules w1) ps), w')"
        "fs w' = files_after cf_rules ps (fs w1)"
        "wlog w' = wlog w1 @ filter (changes cf_rules w1) ps" by blast
      have f: "filter (changes cf_rules w1) ps = filter (changes cf_rules w) ps"
        using same by (rule changes_cong)
      have "files_after cf_rules ps (fs w1) = files_after cf_rules (p # ps) (fs w)"
        using Some np by (auto simp: files_after_def w1_def)
      with w' f ch Some False show ?thesis
        by (simp add: fix_file_syntax_Some w1_def)
    qed
  qed
qed

lemma fse_loop_distinct:
  "distinct ps \<Longrightarrow>
   \<exists>w'. fse_loop ps w = Inr w'
      \<and> fs w' = files_after fse_rules ps (fs w)
      \<and> wlog w' = wlog w @ filter (changes fse_rules w) ps"
proof (induction ps arbitrary: w)
  case Nil
  then show ?case by (simp add: files_after_def)
next
  case (Cons p ps)
  then have d: "distinct ps" and np: "p \<notin> set ps" by simp_all
  obtain w1 where b: "fse_body p w = Inr w1"
    and f1: "fs w1 = (if changes fse_rules w p then (fs w)(p \<mapsto> rewritten fse_rules (the (fs w p))) else fs w)"
    and l1: "wlog w1 = wlog w @ (if changes fse_rules w p then [p] else [])"
    by (cases "fs w p") (auto simp: fse_body_None fse_body_Some changes_def)
  have same: "fs w1 q = fs w q" if "q \<in> set ps" for q
    using that np f1 by auto
  from Cons.IH [OF d, of w1] obtain w' where
    w': "fse_loop ps w1 = Inr w'" "fs w' = files_after fse_rules ps (fs w1)"
    "wlog w' = wlog w1 @ filter (changes fse_rules w1) ps" by blast
  have f: "filter (changes fse_rules w1) ps = filter (changes fse_rules w) ps"
    using same by (rule changes_cong)
  have "files_after fse_rules ps (fs w1) = files_after fse_rules (p # ps) (fs w)"
    using np f1 by (auto simp: files_after_def changes_def split: option.splits)
  with w' f b l1 show ?case by simp
qed

lemma files_after_set: "set ps = set qs \<Longrightarrow> files_after rs ps f = files_after rs qs f"
  by (simp add: files_after_def)

lemma count_changes_set:
  "distinct ps \<Longrightarrow> distinct qs \<Longrightarrow> set ps = set qs \<Longrightarrow>
   length (filter P ps) = length (filter P qs)"
  by (simp add: distinct_length_filter)

text \<open>
  C8: the result of a full pass is a function of the buffer alone
  (\<^term>\<open>rewritten cf_rules c\<close>, \<^term>\<open>rewritten fse_rules c\<close>). Two files with the same
  content end with the same content and the same verdict, whatever their paths and
  whatever else the file systems hold; and running over the same distinct paths in another
  order ends with the same files and the same count, each file holding the rewrite of its
  own original content.
\<close>

theorem files_processed_independently:
  "apply_rules cf_rules c = Inr (rewritten cf_rules c)
   \<and> fix_syntax_errors c = Inr (rewritten fse_rules c)
   \<and> (fs w p = Some c \<longrightarrow> fs v q = Some c \<longrightarrow>
        (\<exists>b w' v'. fix_file_syntax p w = Inr (b, w') \<and> fix_file_syntax q v = Inr (b, v')
            \<and> fs w' p = Some (rewritten cf_rules c) \<and> fs v' q = Some (rewritten cf_rules c))
      \<and> (\<exists>w' v'. fse_body p w = Inr w' \<and> fse_body q v = Inr v'
            \<and> fs w' p = Some (rewritten fse_rules c) \<and> fs v' q = Some (rewritten fse_rules c)))
   \<and> (distinct ps \<longrightarrow> distinct qs \<longrightarrow> set ps = set qs \<longrightarrow>
        (\<exists>n w' v'. cf_loop ps 0 w = Inr (n, w') \<and> cf_loop qs 0 w = Inr (n, v')
            \<and> fs w' = fs v' \<and> fs w' = files_after cf_rules ps (fs w))
      \<and> (\<exists>w' v'. fse_loop ps w = Inr w' \<and> fse_loop qs w = Inr v'
            \<and> fs w' = fs v' \<and> fs w' = files_after fse_rules ps (fs w)))"
proof -
  have a: "\<exists>b w' v'. fix_file_syntax p w = Inr (b, w') \<and> fix_file_syntax q v = Inr (b, v')
            \<and> fs w' p = Some (rewritten cf_rules c) \<and> fs v' q = Some (rewritten cf_rules c)"
    if "fs w p = Some c" "fs v q = Some c"
    using that by (auto simp: fix_file_syntax_Some)
  have b: "\<exists>w' v'. fse_body p w = Inr w' \<and> fse_body q v = Inr v'
            \<and> fs w' p = Some (rewritten fse_rules c) \<and> fs v' q = Some (rewritten fse_rules c)"
    if "fs w p = Some c" "fs v q = Some c"
    using that by (auto simp: fse_body_Some)
  have c: "\<exists>n w' v'. cf_loop ps 0 w = Inr (n, w') \<and> cf_loop qs 0 w = Inr (n, v')
            \<and> fs w' = fs v' \<and> fs w' = files_after cf_rules ps (fs w)"
    if d: "distinct ps" "distinct qs" and s: "set ps = set qs"
  proof -
    from cf_loop_distinct [OF d(1), of 0 w] obtain w' where
      w': "cf_loop ps 0 w = Inr (0 + length (filter (changes cf_rules w) ps), w')"
      "fs w' = files_after cf_rules ps (fs w)" by blast
    from cf_loop_distinct [OF d(2), of 0 w] obtain v' where
      v': "cf_loop qs 0 w = Inr (0 + length (filter (changes cf_rules w) qs), v')"
      "fs v' = files_after cf_rules qs (fs w)" by blast
    from w' v' count_changes_set [OF d s, of "changes cf_rules w"] files_after_set [OF s]
    show ?thesis by auto
  qed
  have d: "\<exists>w' v'. fse_loop ps w = Inr w' \<and> fse_loop qs w = Inr v'
            \<and> fs w' = fs v' \<and> fs w' = files_after fse_rules ps (fs w)"
    if d: "distinct ps" "distinct qs" and s: "set ps = set qs"
  proof -
    from fse_loop_distinct [OF d(1), of w] obtain w' where
      w': "fse_loop ps w = Inr w'" "fs w' = files_after fse_rules ps (fs w)" by blast
    from fse_loop_distinct [OF d(2), of w] obtain v' where
      v': "fse_loop qs w = Inr v'" "fs v' = files_after fse_rules qs (fs w)" by blast
    from w' v' files_after_set [OF s] show ?thesis by auto
  qed
  from a b c d cf_rewritten fse_rewritten show ?thesis by blast
qed

text \<open>
  C8, at a concrete input: two paths, two file systems, two orders.
\<close>

theorem files_processed_independently_witness:
  "fs (one_file ''a.ts'' ''foo(bar, )'') ''a.ts'' = Some ''foo(bar, )''
   \<and> fs (one_file ''b.ts'' ''foo(bar, )'') ''b.ts'' = Some ''foo(bar, )''
   \<and> (\<exists>b w' v'. fix_file_syntax ''a.ts'' (one_file ''a.ts'' ''foo(bar, )'') = Inr (b, w')
          \<and> fix_file_syntax ''b.ts'' (one_file ''b.ts'' ''foo(bar, )'') = Inr (b, v')
          \<and> fs w' ''a.ts'' = Some ''foo(bar)'' \<and> fs v' ''b.ts'' = Some ''foo(bar)'')
   \<and> distinct [''a.ts'', ''b.ts''] \<and> distinct [''b.ts'', ''a.ts'']
   \<and> set [''a.ts'', ''b.ts''] = set [''b.ts'', ''a.ts'']
   \<and> (\<exists>n w' v'. cf_loop [''a.ts'', ''b.ts''] 0 (one_file ''a.ts'' ''foo(bar, )'') = Inr (n, w')
          \<and> cf_loop [''b.ts'', ''a.ts''] 0 (one_file ''a.ts'' ''foo(bar, )'') = Inr (n, v')
          \<and> fs w' = fs v')"
proof -
  have h1: "fs (one_file ''a.ts'' ''foo(bar, )'') ''a.ts'' = Some ''foo(bar, )''"
    and h2: "fs (one_file ''b.ts'' ''foo(bar, )'') ''b.ts'' = Some ''foo(bar, )''"
    by (simp_all add: one_file_def)
  have r: "rewritten cf_rules ''foo(bar, )'' = ''foo(bar)''" by code_simp
  have d: "distinct [''a.ts'', ''b.ts'']" "distinct [''b.ts'', ''a.ts'']"
    "set [''a.ts'', ''b.ts''] = set [''b.ts'', ''a.ts'']" by auto
  from files_processed_independently
    [of "''foo(bar, )''" "one_file ''a.ts'' ''foo(bar, )''" "''a.ts''"
        "one_file ''b.ts'' ''foo(bar, )''" "''b.ts''" "[''a.ts'', ''b.ts'']" "[''b.ts'', ''a.ts'']"]
    h1 h2 d r
  show ?thesis by metis
qed

section \<open>The trailing-comma rule\<close>

lemma fse_rule2_parts:
  "fst fse_rule2 = Seq (Group 1 tc_body) tc_tail" "snd fse_rule2 = [Ref 1]"
  by (simp_all add: fse_rule2_def tc_body_def tc_tail_def seq_def)

lemma greedy_consumed:
  "r \<in> set (greedy C s) \<Longrightarrow> \<exists>m. s = m @ r \<and> (\<forall>c\<in>set m. cmem C c)"
proof (induction s)
  case Nil
  then show ?case by simp
next
  case (Cons a s)
  show ?case
  proof (cases "r = a # s")
    case True
    then show ?thesis by simp
  next
    case False
    with Cons.prems have a: "cmem C a" and "r \<in> set (greedy C s)"
      by (auto split: if_splits)
    with Cons.IH obtain m where "s = m @ r" "\<forall>c\<in>set m. cmem C c" by blast
    with a have "a # s = (a # m) @ r \<and> (\<forall>c\<in>set (a # m). cmem C c)" by simp
    then show ?thesis by blast
  qed
qed

lemma greedy_run:
  "\<forall>c\<in>set xs. cmem C c \<Longrightarrow> ys \<in> set (greedy C (xs @ ys))"
proof (induction xs)
  case Nil
  show ?case by (cases ys) simp_all
next
  case (Cons a xs)
  then show ?case by simp
qed

lemma rmatch_consumed:
  "(s', g') \<in> set (rmatch r (s, g)) \<Longrightarrow> \<exists>m. s = m @ s' \<and> (\<forall>c\<in>set m. consumes r c)"
proof (induction r arbitrary: s g s' g')
  case (Lit w)
  then have "take (length w) s = w" and "s' = drop (length w) s"
    by (auto split: if_splits)
  then have "s = w @ s'" by (metis append_take_drop_id)
  then show ?case by auto
next
  case (Chr C)
  then show ?case by (cases s) (auto split: if_splits)
next
  case (Star C)
  then have "s' \<in> set (greedy C s)" by auto
  then show ?case using greedy_consumed by simp
next
  case (Plus C)
  then obtain a cs where s: "s = a # cs" and a: "cmem C a" and "s' \<in> set (greedy C cs)"
    by (cases s) (auto split: if_splits)
  with greedy_consumed obtain m where "cs = m @ s'" "\<forall>c\<in>set m. cmem C c" by blast
  with s a have "s = (a # m) @ s' \<and> (\<forall>c\<in>set (a # m). consumes (Plus C) c)" by simp
  then show ?case by blast
next
  case Eol
  then have "s' = s" by (cases s) (auto split: if_splits)
  then show ?case by simp
next
  case (Seq a b)
  then obtain s1 g1 where 1: "(s1, g1) \<in> set (rmatch a (s, g))"
    and 2: "(s', g') \<in> set (rmatch b (s1, g1))" by auto
  from Seq.IH(1) [OF 1] obtain m1 where m1: "s = m1 @ s1" "\<forall>c\<in>set m1. consumes a c" by blast
  from Seq.IH(2) [OF 2] obtain m2 where m2: "s1 = m2 @ s'" "\<forall>c\<in>set m2. consumes b c" by blast
  from m1 m2 have "s = (m1 @ m2) @ s' \<and> (\<forall>c\<in>set (m1 @ m2). consumes (Seq a b) c)" by auto
  then show ?case by blast
next
  case (Alt a b)
  then have "(s', g') \<in> set (rmatch a (s, g)) \<or> (s', g') \<in> set (rmatch b (s, g))" by auto
  with Alt.IH show ?case by fastforce
next
  case (Group n r)
  then obtain g0 where "(s', g0) \<in> set (rmatch r (s, g))" by auto
  with Group.IH show ?case by fastforce
qed

lemma rmatch_caps_kept:
  "ngroups r = 0 \<Longrightarrow> (s', g') \<in> set (rmatch r (s, g)) \<Longrightarrow> g' = g"
proof (induction r arbitrary: s g s' g')
  case (Chr C)
  then show ?case by (cases s) (auto split: if_splits)
next
  case (Plus C)
  then show ?case by (cases s) (auto split: if_splits)
next
  case Eol
  then show ?case by (cases s) (auto split: if_splits)
next
  case (Seq a b)
  then obtain s1 g1 where 1: "(s1, g1) \<in> set (rmatch a (s, g))"
    and 2: "(s', g') \<in> set (rmatch b (s1, g1))" by auto
  from Seq.prems have "ngroups a = 0" "ngroups b = 0" by simp_all
  with Seq.IH 1 2 show ?case by blast
qed (auto split: if_splits)

lemma rmatch_group:
  assumes "ngroups r = 0" "(s', g') \<in> set (rmatch (Group n r) (s, g))"
  shows "\<exists>m. s = m @ s' \<and> (\<forall>c\<in>set m. consumes r c) \<and> g' = g(n \<mapsto> m)"
proof -
  from assms(2) obtain g0 where in0: "(s', g0) \<in> set (rmatch r (s, g))"
    and g': "g' = g0(n \<mapsto> take (length s - length s') s)" by auto
  from rmatch_caps_kept [OF assms(1) in0] have g0: "g0 = g" .
  from rmatch_consumed [OF in0] obtain m where m: "s = m @ s'" "\<forall>c\<in>set m. consumes r c"
    by blast
  from m have t: "take (length s - length s') s = m" by simp
  have "s = m @ s' \<and> (\<forall>c\<in>set m. consumes r c) \<and> g' = g(n \<mapsto> m)"
    using m g' by (simp only: t g0) simp
  then show ?thesis ..
qed

lemma mem_Seq:
  "x \<in> set (rmatch a st) \<Longrightarrow> y \<in> set (rmatch b x) \<Longrightarrow> y \<in> set (rmatch (Seq a b) st)"
  by (simp only: rmatch.simps set_concat set_map) blast


subsection \<open>What follows the group\<close>

lemma space_facts:
  "is_space NL" "\<not> is_space CHR '',''" "NL \<noteq> CHR '',''" "cmem spc c = is_space c"
  by (simp_all add: is_space_def NL_def spc_def)

lemma eol_end:
  "rmatch (Seq Eol (Lit [])) (s, g) = (if s = [] \<or> hd s = NL then [(s, g)] else [])"
  by (cases s) (simp_all add: NL_def)

lemma text_on_line_split:
  "text_on_line r \<Longrightarrow>
   \<exists>ind b aft. r = ind @ b # aft \<and> (\<forall>c\<in>set ind. is_space c \<and> c \<noteq> NL) \<and> \<not> is_space b"
proof (induction r)
  case Nil
  then show ?case by simp
next
  case (Cons a r)
  show ?case
  proof (cases "is_space a")
    case False
    then have "a # r = [] @ a # r \<and> (\<forall>c\<in>set []. is_space c \<and> c \<noteq> NL) \<and> \<not> is_space a"
      by simp
    then show ?thesis by blast
  next
    case True
    with Cons.prems have a: "a \<noteq> NL" and "text_on_line r" by (auto split: if_splits)
    with Cons.IH obtain ind b aft where
      r: "r = ind @ b # aft" "\<forall>c\<in>set ind. is_space c \<and> c \<noteq> NL" "\<not> is_space b" by blast
    with True a have "a # r = (a # ind) @ b # aft
        \<and> (\<forall>c\<in>set (a # ind). is_space c \<and> c \<noteq> NL) \<and> \<not> is_space b" by simp
    then show ?thesis by blast
  qed
qed

lemma star_then_Nil: "rmatch (Seq (Star C) E) ([], g) = rmatch E ([], g)"
  by simp

lemma star_then_Cons:
  "rmatch (Seq (Star C) E) (c # cs, g) =
     (if cmem C c then rmatch (Seq (Star C) E) (cs, g) @ rmatch E (c # cs, g)
      else rmatch E (c # cs, g))"
  by simp

lemma star_eol_none:
  assumes "\<forall>c\<in>set ind. is_space c \<and> c \<noteq> NL" "\<not> is_space b"
  shows "rmatch (Seq (Star spc) (Seq Eol (Lit []))) (ind @ b # aft, g) = []"
  using assms(1)
proof (induction ind)
  case Nil
  from assms(2) have "b \<noteq> NL" using space_facts(1) by auto
  with assms(2) show ?case
    by (simp add: star_then_Cons space_facts(4) eol_end del: rmatch.simps)
next
  case (Cons a ind)
  then show ?case
    by (simp add: star_then_Cons space_facts(4) eol_end del: rmatch.simps)
qed

lemma star_eol_line:
  assumes "text_on_line r"
  shows "rmatch (Seq (Star spc) (Seq Eol (Lit []))) (NL # r, g) = [(NL # r, g)]"
proof -
  from text_on_line_split [OF assms] obtain ind b aft where
    r: "r = ind @ b # aft" "\<forall>c\<in>set ind. is_space c \<and> c \<noteq> NL" "\<not> is_space b" by blast
  from star_eol_none [OF r(2,3), of aft g] r(1) show ?thesis
    by (simp add: star_then_Cons space_facts eol_end del: rmatch.simps)
qed

lemma star_eol_first:
  assumes "\<forall>c\<in>set trail. is_space c" "rest = [] \<or> (\<exists>r. rest = NL # r \<and> text_on_line r)"
  shows "\<exists>zs. rmatch (Seq (Star spc) (Seq Eol (Lit []))) (trail @ rest, g) = (rest, g) # zs"
  using assms(1)
proof (induction trail)
  case Nil
  from assms(2) show ?case
  proof
    assume "rest = []"
    then show ?thesis by (simp add: star_then_Nil eol_end del: rmatch.simps)
  next
    assume "\<exists>r. rest = NL # r \<and> text_on_line r"
    then obtain r where r: "rest = NL # r" "text_on_line r" by blast
    from star_eol_line [OF r(2), of g] r(1) show ?thesis
      by (simp del: rmatch.simps)
  qed
next
  case (Cons a trail)
  then obtain zs where
    "rmatch (Seq (Star spc) (Seq Eol (Lit []))) (trail @ rest, g) = (rest, g) # zs" by auto
  with Cons.prems show ?case
    by (simp add: star_then_Cons space_facts(4) del: rmatch.simps)
qed

lemma lit_then: "rmatch (Seq (Lit [c]) E) (c # cs, g) = rmatch E (cs, g)"
  by simp

lemma tc_tail_first:
  assumes "\<forall>c\<in>set trail. is_space c" "rest = [] \<or> (\<exists>r. rest = NL # r \<and> text_on_line r)"
  shows "\<exists>zs. rmatch tc_tail (CHR '','' # trail @ rest, g) = (rest, g) # zs"
  using star_eol_first [OF assms, of g]
  by (simp add: tc_tail_def seq_def lit_then del: rmatch.simps)

lemma tc_tail_no_comma:
  "s = [] \<or> hd s \<noteq> CHR '','' \<Longrightarrow> rmatch tc_tail (s, g) = []"
  by (cases s) (auto simp: tc_tail_def seq_def)


subsection \<open>What the group holds\<close>

lemma mem_star: "\<forall>c\<in>set xs. cmem C c \<Longrightarrow> (ys, g) \<in> set (rmatch (Star C) (xs @ ys, g))"
  using greedy_run [of xs C ys] by simp

lemma mem_plus:
  "xs \<noteq> [] \<Longrightarrow> \<forall>c\<in>set xs. cmem C c \<Longrightarrow> (ys, g) \<in> set (rmatch (Plus C) (xs @ ys, g))"
proof (cases xs)
  case Nil
  assume "xs \<noteq> []"
  with Nil show ?thesis by simp
next
  case (Cons a as)
  assume "\<forall>c\<in>set xs. cmem C c"
  with Cons greedy_run [of as C ys] show ?thesis by simp
qed

lemma mem_chr: "cmem C c \<Longrightarrow> (cs, g) \<in> set (rmatch (Chr C) (c # cs, g))"
  by simp

lemma mem_lit: "(s, g) \<in> set (rmatch (Lit w) (w @ s, g))"
  by simp

lemma not_comma:
  "cmem id0 c \<Longrightarrow> c \<noteq> CHR '',''" "cmem idc c \<Longrightarrow> c \<noteq> CHR '',''"
  "is_space c \<Longrightarrow> c \<noteq> CHR '',''" "consumes tc_body c \<Longrightarrow> c \<noteq> CHR '',''"
proof -
  have "\<not> cmem id0 CHR '',''" "\<not> cmem idc CHR '',''" "\<not> is_space CHR '',''"
    "\<not> consumes tc_body CHR '',''"
    by code_simp+
  then show "cmem id0 c \<Longrightarrow> c \<noteq> CHR '',''" "cmem idc c \<Longrightarrow> c \<noteq> CHR '',''"
    "is_space c \<Longrightarrow> c \<noteq> CHR '',''" "consumes tc_body c \<Longrightarrow> c \<noteq> CHR '',''"
    by auto
qed

lemma tc_body_groups: "ngroups tc_body = 0"
  by (simp add: tc_body_def seq_def ident_def)

lemma tc_body_unfold:
  "tc_body = Seq (Star (Pos [SpaceC, One (CHR 0x09)])) (Seq ident (Seq (Lit '':'')
      (Seq (Star spc) (Seq (Plus (Neg [One CHR '','', One NL])) (Lit [])))))"
  by (simp add: tc_body_def seq_def)

lemma tc_body_line:
  assumes "cmem id0 i0" "\<forall>c\<in>set ir. cmem idc c" "\<forall>c\<in>set gap. is_space c"
    "v \<noteq> []" "\<forall>c\<in>set v. c \<noteq> CHR '','' \<and> c \<noteq> NL"
  shows "(R, g) \<in> set (rmatch tc_body (i0 # ir @ '':'' @ gap @ v @ R, g))"
proof -
  have 6: "(R, g) \<in> set (rmatch (Lit []) (R, g))" by simp
  have "\<forall>c\<in>set v. cmem (Neg [One CHR '','', One NL]) c" using assms(5) by simp
  from mem_plus [OF assms(4) this]
  have 5: "(R, g) \<in> set (rmatch (Plus (Neg [One CHR '','', One NL])) (v @ R, g))" .
  have "\<forall>c\<in>set gap. cmem spc c" using assms(3) by (simp add: space_facts(4))
  from mem_star [OF this]
  have 4: "(v @ R, g) \<in> set (rmatch (Star spc) (gap @ v @ R, g))" .
  have 3: "(gap @ v @ R, g) \<in> set (rmatch (Lit '':'') ('':'' @ gap @ v @ R, g))"
    by (rule mem_lit)
  from mem_star [OF assms(2)]
  have 2: "('':'' @ gap @ v @ R, g) \<in> set (rmatch (Star idc) (ir @ '':'' @ gap @ v @ R, g))" .
  from mem_chr [OF assms(1)]
  have 1: "(ir @ '':'' @ gap @ v @ R, g) \<in> set (rmatch (Chr id0) (i0 # ir @ '':'' @ gap @ v @ R, g))" .
  have 0: "(i0 # ir @ '':'' @ gap @ v @ R, g)
      \<in> set (rmatch (Star (Pos [SpaceC, One (CHR 0x09)])) ([] @ i0 # ir @ '':'' @ gap @ v @ R, g))"
    by (rule mem_star) simp
  have i: "('':'' @ gap @ v @ R, g) \<in> set (rmatch ident (i0 # ir @ '':'' @ gap @ v @ R, g))"
    unfolding ident_def by (rule mem_Seq [OF 1 2])
  have "(R, g) \<in> set (rmatch (Seq (Star (Pos [SpaceC, One (CHR 0x09)])) (Seq ident (Seq (Lit '':'')
      (Seq (Star spc) (Seq (Plus (Neg [One CHR '','', One NL])) (Lit [])))))) ([] @ i0 # ir @ '':'' @ gap @ v @ R, g))"
    by (rule mem_Seq [OF 0 mem_Seq [OF i mem_Seq [OF 3 mem_Seq [OF 4 mem_Seq [OF 5 6]]]]])
  then show ?thesis by (simp only: tc_body_unfold append_Nil)
qed

lemma group_line:
  assumes "cmem id0 i0" "\<forall>c\<in>set ir. cmem idc c" "\<forall>c\<in>set gap. is_space c"
    "v \<noteq> []" "\<forall>c\<in>set v. c \<noteq> CHR '','' \<and> c \<noteq> NL"
  shows "(R, g(1 \<mapsto> i0 # ir @ '':'' @ gap @ v))
     \<in> set (rmatch (Group 1 tc_body) (i0 # ir @ '':'' @ gap @ v @ R, g))"
proof -
  have "(\<lambda>(s', g'). (s', g'(1 \<mapsto> take (length (i0 # ir @ '':'' @ gap @ v @ R) - length s')
            (i0 # ir @ '':'' @ gap @ v @ R)))) (R, g)
     \<in> set (rmatch (Group 1 tc_body) (i0 # ir @ '':'' @ gap @ v @ R, g))"
    using tc_body_line [OF assms, of R g] by (simp only: rmatch.simps set_map) (rule imageI)
  then show ?thesis by simp
qed

lemma first_comma_unique:
  "a @ c # b = a' @ c # b' \<Longrightarrow> c \<notin> set a \<Longrightarrow> c \<notin> set a' \<Longrightarrow> a = a' \<and> b = b'"
proof (induction a arbitrary: a')
  case Nil
  then show ?case by (cases a') auto
next
  case (Cons x a)
  then show ?case by (cases a') auto
qed

lemma group_results:
  assumes "CHR '','' \<notin> set m0"
    and "x \<in> set (rmatch (Group 1 tc_body) (m0 @ CHR '','' # T, no_caps))"
  shows "rmatch tc_tail x = [] \<or> x = (CHR '','' # T, no_caps(1 \<mapsto> m0))"
proof -
  obtain s' g' where x: "x = (s', g')" by (cases x)
  from rmatch_group [OF tc_body_groups assms(2) [unfolded x]] obtain m where
    m: "m0 @ CHR '','' # T = m @ s'" "\<forall>c\<in>set m. consumes tc_body c" "g' = no_caps(1 \<mapsto> m)"
    by blast
  from m(2) have nm: "CHR '','' \<notin> set m" using not_comma(4) by blast
  show ?thesis
  proof (cases "s' = [] \<or> hd s' \<noteq> CHR '',''")
    case True
    then show ?thesis using tc_tail_no_comma x by blast
  next
    case False
    then obtain s2 where s2: "s' = CHR '','' # s2" by (cases s') auto
    from first_comma_unique [OF m(1) [unfolded s2] assms(1) nm] have "m0 = m" "T = s2" by simp_all
    with x s2 m(3) show ?thesis by simp
  qed
qed

lemma concat_same_head:
  "(\<forall>x\<in>set xs. f x = [] \<or> x = x0) \<Longrightarrow> f x0 = y # ys \<Longrightarrow>
   concat (map f xs) = [] \<or> (\<exists>zs. concat (map f xs) = y # zs)"
proof (induction xs)
  case Nil
  then show ?case by simp
next
  case (Cons a xs)
  then have a: "f a = [] \<or> a = x0" by simp
  from Cons have r: "concat (map f xs) = [] \<or> (\<exists>zs. concat (map f xs) = y # zs)" by simp
  from a show ?case
  proof
    assume "f a = []"
    with r show ?thesis by simp
  next
    assume "a = x0"
    with Cons.prems(2) show ?thesis by simp
  qed
qed

lemma rule2_results:
  assumes "CHR '','' \<notin> set m0" "\<forall>c\<in>set trail. is_space c"
    "rest = [] \<or> (\<exists>r. rest = NL # r \<and> text_on_line r)"
  shows "rmatch (fst fse_rule2) (m0 @ CHR '','' # trail @ rest, no_caps) = []
    \<or> (\<exists>zs. rmatch (fst fse_rule2) (m0 @ CHR '','' # trail @ rest, no_caps)
            = (rest, no_caps(1 \<mapsto> m0)) # zs)"
proof -
  from tc_tail_first [OF assms(2,3), of "no_caps(1 \<mapsto> m0)"] obtain ys where
    t: "rmatch tc_tail (CHR '','' # trail @ rest, no_caps(1 \<mapsto> m0)) = (rest, no_caps(1 \<mapsto> m0)) # ys"
    by blast
  have "\<forall>x\<in>set (rmatch (Group 1 tc_body) (m0 @ CHR '','' # trail @ rest, no_caps)).
          rmatch tc_tail x = [] \<or> x = (CHR '','' # trail @ rest, no_caps(1 \<mapsto> m0))"
    using group_results [OF assms(1)] by blast
  from concat_same_head [OF this t] show ?thesis
    by (simp only: fse_rule2_parts rmatch.simps(6))
qed

lemma rule2_line_match:
  assumes "cmem id0 i0" "\<forall>c\<in>set ir. cmem idc c" "\<forall>c\<in>set gap. is_space c"
    "v \<noteq> []" "\<forall>c\<in>set v. c \<noteq> CHR '','' \<and> c \<noteq> NL"
    "\<forall>c\<in>set trail. is_space c" "rest = [] \<or> (\<exists>r. rest = NL # r \<and> text_on_line r)"
  shows "rmatch (fst fse_rule2) (i0 # ir @ '':'' @ gap @ v @ CHR '','' # trail @ rest, no_caps) \<noteq> []"
proof -
  let ?g = "no_caps(1 \<mapsto> i0 # ir @ '':'' @ gap @ v)"
  from tc_tail_first [OF assms(6,7), of ?g] have
    "(rest, ?g) \<in> set (rmatch tc_tail (CHR '','' # trail @ rest, ?g))" by auto
  from mem_Seq [OF group_line [OF assms(1-5)] this]
  have "(rest, ?g) \<in> set (rmatch (fst fse_rule2) (i0 # ir @ '':'' @ gap @ v @ CHR '','' # trail @ rest, no_caps))"
    by (simp only: fse_rule2_parts)
  then show ?thesis by auto
qed


subsection \<open>The scan over a property line\<close>

lemma sub_scan_copy:
  "rmatch p (c # cs, no_caps) = [] \<Longrightarrow> sub_scan p t False (c # cs) = c # sub_scan p t False cs"
  by (subst sub_scan.simps) simp

lemma sub_scan_replace:
  "rmatch p (s, no_caps) = (s', g) # zs \<Longrightarrow> length s' < length s \<Longrightarrow>
   sub_scan p t False s = expand t g @ sub_scan p t False s'"
  by (subst sub_scan.simps) simp

lemma line_no_comma:
  assumes "cmem id0 i0" "\<forall>c\<in>set ir. cmem idc c" "\<forall>c\<in>set gap. is_space c"
    "\<forall>c\<in>set v. c \<noteq> CHR '','' \<and> c \<noteq> NL"
  shows "CHR '','' \<notin> set (i0 # ir @ '':'' @ gap @ v)"
proof -
  have "i0 \<noteq> CHR '',''" using assms(1) by (rule not_comma(1))
  moreover have "CHR '','' \<notin> set ir" using assms(2) not_comma(2) by blast
  moreover have "CHR '','' \<notin> set gap" using assms(3) not_comma(3) by blast
  moreover have "CHR '','' \<notin> set v" using assms(4) by blast
  ultimately show ?thesis by simp
qed

lemma rule2_scan:
  assumes "cmem id0 i0" "\<forall>c\<in>set ir. cmem idc c" "\<forall>c\<in>set gap. is_space c"
    "v \<noteq> []" "\<forall>c\<in>set v. c \<noteq> CHR '','' \<and> c \<noteq> NL"
    "\<forall>c\<in>set trail. is_space c" "rest = [] \<or> (\<exists>r. rest = NL # r \<and> text_on_line r)"
    "CHR '','' \<notin> set pre"
  shows "sub_scan (fst fse_rule2) [Ref 1] False (pre @ i0 # ir @ '':'' @ gap @ v @ CHR '','' # trail @ rest)
       = pre @ i0 # ir @ '':'' @ gap @ v @ sub_scan (fst fse_rule2) [Ref 1] False rest"
  using assms(8)
proof (induction pre)
  case Nil
  let ?line = "i0 # ir @ '':'' @ gap @ v"
  have nc: "CHR '','' \<notin> set ?line"
    using line_no_comma [OF assms(1,2,3,5)] .
  have "rmatch (fst fse_rule2) (?line @ CHR '','' # trail @ rest, no_caps) \<noteq> []"
    using rule2_line_match [OF assms(1-7)] by simp
  with rule2_results [OF nc assms(6,7)]
  obtain zs where
    "rmatch (fst fse_rule2) (?line @ CHR '','' # trail @ rest, no_caps) = (rest, no_caps(1 \<mapsto> ?line)) # zs"
    by blast
  from sub_scan_replace [OF this, of "[Ref 1]"] show ?case by simp
next
  case (Cons c pre)
  let ?m = "(c # pre) @ i0 # ir @ '':'' @ gap @ v"
  have nc: "CHR '','' \<notin> set ?m"
    using line_no_comma [OF assms(1,2,3,5)] Cons.prems by simp
  from Cons have IH: "sub_scan (fst fse_rule2) [Ref 1] False (pre @ i0 # ir @ '':'' @ gap @ v @ CHR '','' # trail @ rest)
       = pre @ i0 # ir @ '':'' @ gap @ v @ sub_scan (fst fse_rule2) [Ref 1] False rest" by simp
  from rule2_results [OF nc assms(6,7)] show ?case
  proof
    assume "rmatch (fst fse_rule2) (?m @ CHR '','' # trail @ rest, no_caps) = []"
    then have "rmatch (fst fse_rule2) (c # pre @ i0 # ir @ '':'' @ gap @ v @ CHR '','' # trail @ rest, no_caps) = []"
      by simp
    from sub_scan_copy [OF this, of "[Ref 1]"] IH show ?thesis by simp
  next
    assume "\<exists>zs. rmatch (fst fse_rule2) (?m @ CHR '','' # trail @ rest, no_caps) = (rest, no_caps(1 \<mapsto> ?m)) # zs"
    then obtain zs where
      "rmatch (fst fse_rule2) (?m @ CHR '','' # trail @ rest, no_caps) = (rest, no_caps(1 \<mapsto> ?m)) # zs"
      by blast
    from sub_scan_replace [OF this, of "[Ref 1]"] show ?thesis by simp
  qed
qed

lemma rule2_re_sub: "re_sub (fst fse_rule2) (snd fse_rule2) s = Inr (sub_scan (fst fse_rule2) [Ref 1] False s)"
proof -
  have "wf_rule (fst fse_rule2, snd fse_rule2)" using fse_wf by (simp add: fse_rules_def)
  from re_sub_wf [OF this] show ?thesis by (simp add: fse_rule2_parts(2))
qed

lemma rule2_rewritten: "rewritten [fse_rule2] s = sub_scan (fst fse_rule2) [Ref 1] False s"
proof -
  obtain p t where pt: "fse_rule2 = (p, t)" by (cases fse_rule2)
  have "apply_rules [(p, t)] s = re_sub p t s" by (simp split: sum.splits)
  then have "apply_rules [fse_rule2] s = re_sub (fst fse_rule2) (snd fse_rule2) s"
    by (simp add: pt)
  then show ?thesis by (simp add: rewritten_def rule2_re_sub)
qed

subsection \<open>The rule at any place of the buffer\<close>

lemma tc_tail_groups: "ngroups tc_tail = 0"
  by (simp add: tc_tail_def seq_def)

lemma tc_tail_consumed:
  assumes "(s', g') \<in> set (rmatch tc_tail (s1, g1))"
  shows "\<exists>w. s1 = CHR '','' # w @ s' \<and> (\<forall>c\<in>set w. is_space c)"
proof (cases "s1 = [] \<or> hd s1 \<noteq> CHR '',''")
  case True
  from tc_tail_no_comma [OF this] assms show ?thesis by simp
next
  case False
  then obtain s2 where s2: "s1 = CHR '','' # s2" by (cases s1) auto
  have "rmatch tc_tail (CHR '','' # s2, g1) = rmatch (Seq (Star spc) (Seq Eol (Lit []))) (s2, g1)"
    by (simp add: tc_tail_def seq_def lit_then del: rmatch.simps)
  with assms s2 have "(s', g') \<in> set (rmatch (Seq (Star spc) (Seq Eol (Lit []))) (s2, g1))"
    by simp
  from rmatch_consumed [OF this] obtain w where
    w: "s2 = w @ s'" "\<forall>c\<in>set w. consumes (Seq (Star spc) (Seq Eol (Lit []))) c" by blast
  from w(2) have "\<forall>c\<in>set w. is_space c" by (simp add: space_facts(4))
  with w(1) s2 show ?thesis by blast
qed

lemma rule2_match_shape:
  assumes "(s', g') \<in> set (rmatch (fst fse_rule2) (u, no_caps))"
  shows "\<exists>m w. u = m @ CHR '','' # w @ s' \<and> CHR '','' \<notin> set m
           \<and> (\<forall>c\<in>set w. is_space c) \<and> g' = no_caps(1 \<mapsto> m)"
proof -
  from assms obtain x where x: "x \<in> set (rmatch (Group 1 tc_body) (u, no_caps))"
    and in_t: "(s', g') \<in> set (rmatch tc_tail x)"
    by (auto simp add: fse_rule2_parts(1) simp del: rmatch.simps(8))
  obtain s1 g1 where x1: "x = (s1, g1)" by (cases x)
  from rmatch_group [OF tc_body_groups x [unfolded x1]] obtain m where
    m: "u = m @ s1" "\<forall>c\<in>set m. consumes tc_body c" "g1 = no_caps(1 \<mapsto> m)" by blast
  from m(2) have nm: "CHR '','' \<notin> set m" using not_comma(4) by blast
  from rmatch_caps_kept [OF tc_tail_groups in_t [unfolded x1]] have g: "g' = g1" .
  from tc_tail_consumed [OF in_t [unfolded x1]] obtain w where
    w: "s1 = CHR '','' # w @ s'" "\<forall>c\<in>set w. is_space c" by blast
  from m(1) w(1) have "u = m @ CHR '','' # w @ s'" by simp
  with nm w(2) g m(3) show ?thesis by blast
qed

lemma id0_not_space: "cmem id0 c \<Longrightarrow> \<not> is_space c"
  by (auto simp: id0_def in_rng_def is_space_def)

lemma ws_prefix_split:
  "w @ s' = p @ i0 # X \<Longrightarrow> \<forall>c\<in>set w. is_space c \<Longrightarrow> \<not> is_space i0 \<Longrightarrow>
   \<exists>q. p = w @ q \<and> s' = q @ i0 # X"
proof (induction w arbitrary: p)
  case Nil
  then show ?case by simp
next
  case (Cons a w)
  show ?case
  proof (cases p)
    case Nil
    with Cons.prems show ?thesis by auto
  next
    case (Cons b p')
    with Cons.prems have ab: "a = b" and eq: "w @ s' = p' @ i0 # X" by simp_all
    from Cons.IH [OF eq] Cons.prems obtain q where "p' = w @ q" "s' = q @ i0 # X" by auto
    with ab Cons show ?thesis by simp
  qed
qed

lemma rule2_match_early:
  assumes "CHR '','' \<in> set pre" "cmem id0 i0"
    and "(s', g') \<in> set (rmatch (fst fse_rule2) (pre @ i0 # X, no_caps))"
  shows "\<exists>q. s' = q @ i0 # X \<and> length q < length pre"
proof -
  from rule2_match_shape [OF assms(3)] obtain m w where
    mw: "pre @ i0 # X = m @ CHR '','' # w @ s'" "CHR '','' \<notin> set m" "\<forall>c\<in>set w. is_space c"
    by blast
  from split_list_first [OF assms(1)] obtain a b where
    ab: "pre = a @ CHR '','' # b" "CHR '','' \<notin> set a" by blast
  from mw(1) ab(1) have "a @ CHR '','' # (b @ i0 # X) = m @ CHR '','' # (w @ s')" by simp
  from first_comma_unique [OF this ab(2) mw(2)] have "w @ s' = b @ i0 # X" by simp
  from ws_prefix_split [OF this mw(3) id0_not_space [OF assms(2)]] obtain q where
    q: "b = w @ q" "s' = q @ i0 # X" by blast
  from q(1) ab(1) have "length q < length pre" by simp
  with q(2) show ?thesis by blast
qed

lemma rule2_scan_any:
  assumes "cmem id0 i0" "\<forall>c\<in>set ir. cmem idc c" "\<forall>c\<in>set gap. is_space c"
    "v \<noteq> []" "\<forall>c\<in>set v. c \<noteq> CHR '','' \<and> c \<noteq> NL"
    "\<forall>c\<in>set trail. is_space c" "rest = [] \<or> (\<exists>r. rest = NL # r \<and> text_on_line r)"
  shows "\<exists>out. sub_scan (fst fse_rule2) [Ref 1] False
                 (pre @ i0 # ir @ '':'' @ gap @ v @ CHR '','' # trail @ rest)
       = out @ i0 # ir @ '':'' @ gap @ v @ sub_scan (fst fse_rule2) [Ref 1] False rest"
proof (induction "length pre" arbitrary: pre rule: less_induct)
  case less
  let ?X = "ir @ '':'' @ gap @ v @ CHR '','' # trail @ rest"
  let ?R = "i0 # ir @ '':'' @ gap @ v @ sub_scan (fst fse_rule2) [Ref 1] False rest"
  show ?case
  proof (cases "CHR '','' \<in> set pre")
    case False
    from rule2_scan [OF assms False] show ?thesis by blast
  next
    case True
    then obtain c pre' where pre: "pre = c # pre'" by (cases pre) auto
    show ?thesis
    proof (cases "rmatch (fst fse_rule2) (pre @ i0 # ?X, no_caps)")
      case Nil
      then have "rmatch (fst fse_rule2) (c # pre' @ i0 # ?X, no_caps) = []" by (simp add: pre)
      from sub_scan_copy [OF this, of "[Ref 1]"]
      have 1: "sub_scan (fst fse_rule2) [Ref 1] False (pre @ i0 # ?X)
           = c # sub_scan (fst fse_rule2) [Ref 1] False (pre' @ i0 # ?X)" by (simp add: pre)
      have "length pre' < length pre" by (simp add: pre)
      from less [OF this] obtain out where
        "sub_scan (fst fse_rule2) [Ref 1] False (pre' @ i0 # ?X) = out @ ?R" by blast
      with 1 have "sub_scan (fst fse_rule2) [Ref 1] False (pre @ i0 # ?X) = (c # out) @ ?R"
        by simp
      then show ?thesis by blast
    next
      case (Cons y zs)
      obtain s' g where y: "y = (s', g)" by (cases y)
      from Cons y have "(s', g) \<in> set (rmatch (fst fse_rule2) (pre @ i0 # ?X, no_caps))" by simp
      from rule2_match_early [OF True assms(1) this] obtain q where
        q: "s' = q @ i0 # ?X" "length q < length pre" by blast
      from q have "length s' < length (pre @ i0 # ?X)" by simp
      from sub_scan_replace [OF Cons [unfolded y] this, of "[Ref 1]"]
      have 1: "sub_scan (fst fse_rule2) [Ref 1] False (pre @ i0 # ?X)
           = expand [Ref 1] g @ sub_scan (fst fse_rule2) [Ref 1] False (q @ i0 # ?X)"
        by (simp only: q(1))
      from less [OF q(2)] obtain out where
        "sub_scan (fst fse_rule2) [Ref 1] False (q @ i0 # ?X) = out @ ?R" by blast
      with 1 have "sub_scan (fst fse_rule2) [Ref 1] False (pre @ i0 # ?X)
           = (expand [Ref 1] g @ out) @ ?R" by simp
      then show ?thesis by blast
    qed
  qed
qed

lemma rule2_scan_line_start:
  "sub_scan (fst fse_rule2) [Ref 1] False [] = []"
  "\<exists>t. sub_scan (fst fse_rule2) [Ref 1] False (NL # r) = NL # t"
proof -
  have "rmatch (fst fse_rule2) ([], no_caps) = []"
  proof (cases "rmatch (fst fse_rule2) ([], no_caps)")
    case Nil
    then show ?thesis .
  next
    case (Cons y zs)
    obtain s' g where y: "y = (s', g)" by (cases y)
    from Cons y have "(s', g) \<in> set (rmatch (fst fse_rule2) ([], no_caps))" by simp
    from rule2_match_shape [OF this] show ?thesis by simp
  qed
  then show "sub_scan (fst fse_rule2) [Ref 1] False [] = []"
    by (subst sub_scan.simps) simp
  show "\<exists>t. sub_scan (fst fse_rule2) [Ref 1] False (NL # r) = NL # t"
  proof (cases "rmatch (fst fse_rule2) (NL # r, no_caps)")
    case Nil
    from sub_scan_copy [OF this, of "[Ref 1]"] show ?thesis by blast
  next
    case (Cons y zs)
    obtain s' g where y: "y = (s', g)" by (cases y)
    from Cons y have "(s', g) \<in> set (rmatch (fst fse_rule2) (NL # r, no_caps))" by simp
    from rule2_match_shape [OF this] obtain m w where
      mw: "NL # r = m @ CHR '','' # w @ s'" "g = no_caps(1 \<mapsto> m)" by blast
    from mw(1) obtain m' where m': "m = NL # m'"
      by (cases m) (auto simp: space_facts(3))
    from arg_cong [OF mw(1), of length] have "length s' < length (NL # r)" by simp
    from sub_scan_replace [OF Cons [unfolded y] this, of "[Ref 1]"] mw(2) m'
    show ?thesis by simp
  qed
qed

text \<open>
  C10 (amended): the trailing-comma rule of \<^verbatim>\<open>fix_syntax_errors\<close>, with its
  \<^verbatim>\<open>re.MULTILINE\<close> end-of-line anchor, removes the comma behind every property
  \<^verbatim>\<open>identifier: value\<close> (the value not empty, without comma or line break) whose comma
  is followed only by white space up to the end of the buffer or up to the line break
  before a line with text, wherever in the buffer the property stands: the rule's output
  is some text, then the property without the comma, then the rule's output for the rest,
  which is empty or starts with the line break (and the text before is returned as it is
  when it holds no comma). What stands on the next line plays no part, so the comma that
  separates the property from a sibling property on the next line goes too, as in
  \<^verbatim>\<open>a: 1,\<close> / \<^verbatim>\<open>b: 2\<close> under the whole of \<^verbatim>\<open>fix_syntax_errors\<close>.
\<close>

theorem trailing_comma_removed:
  assumes "cmem id0 i0" and "\<forall>c\<in>set ir. cmem idc c"
    and "\<forall>c\<in>set gap. is_space c"
    and "v \<noteq> []" and "\<forall>c\<in>set v. c \<noteq> CHR '','' \<and> c \<noteq> NL"
    and "\<forall>c\<in>set trail. is_space c"
    and "rest = [] \<or> (\<exists>r. rest = NL # r \<and> text_on_line r)"
  shows "(\<exists>out. re_sub (fst fse_rule2) (snd fse_rule2)
                  (pre @ i0 # ir @ '':'' @ gap @ v @ '','' @ trail @ rest)
                = Inr (out @ i0 # ir @ '':'' @ gap @ v @ rewritten [fse_rule2] rest)
              \<and> (CHR '','' \<notin> set pre \<longrightarrow> out = pre))
       \<and> (rewritten [fse_rule2] rest = [] \<or> hd (rewritten [fse_rule2] rest) = NL)
       \<and> fix_syntax_errors (''  a: 1,'' @ [NL] @ ''  b: 2'') = Inr (''  a: 1'' @ [NL] @ ''  b: 2'')"
proof -
  have a: "\<exists>out. re_sub (fst fse_rule2) (snd fse_rule2)
                  (pre @ i0 # ir @ '':'' @ gap @ v @ '','' @ trail @ rest)
                = Inr (out @ i0 # ir @ '':'' @ gap @ v @ rewritten [fse_rule2] rest)
              \<and> (CHR '','' \<notin> set pre \<longrightarrow> out = pre)"
  proof (cases "CHR '','' \<in> set pre")
    case True
    from rule2_scan_any [OF assms, of pre] obtain out where
      "sub_scan (fst fse_rule2) [Ref 1] False (pre @ i0 # ir @ '':'' @ gap @ v @ CHR '','' # trail @ rest)
       = out @ i0 # ir @ '':'' @ gap @ v @ sub_scan (fst fse_rule2) [Ref 1] False rest" by blast
    with True show ?thesis by (simp add: rule2_re_sub rule2_rewritten)
  next
    case False
    from rule2_scan [OF assms False] False show ?thesis
      by (simp add: rule2_re_sub rule2_rewritten)
  qed
  have b: "rewritten [fse_rule2] rest = [] \<or> hd (rewritten [fse_rule2] rest) = NL"
  proof (cases rest)
    case Nil
    have "rewritten [fse_rule2] rest = []"
      unfolding rule2_rewritten Nil by (rule rule2_scan_line_start(1))
    then show ?thesis ..
  next
    case (Cons x r)
    with assms(7) have r: "rest = NL # r" by simp
    from rule2_scan_line_start(2) obtain t where
      t: "sub_scan (fst fse_rule2) [Ref 1] False (NL # r) = NL # t" by blast
    have "rewritten [fse_rule2] rest = NL # t"
      unfolding rule2_rewritten r by (rule t)
    then show ?thesis by simp
  qed
  have c: "fix_syntax_errors (''  a: 1,'' @ [NL] @ ''  b: 2'') = Inr (''  a: 1'' @ [NL] @ ''  b: 2'')"
    unfolding fix_syntax_errors_def by code_simp
  from a b c show ?thesis by blast
qed

text \<open>
  C10 (amended), at a concrete input: two indented sibling properties.
\<close>

theorem trailing_comma_removed_witness:
  "cmem id0 CHR ''a'' \<and> text_on_line ''  b: 2''
   \<and> re_sub (fst fse_rule2) (snd fse_rule2) (''  a: 1,'' @ [NL] @ ''  b: 2'')
       = Inr (''  a: 1'' @ [NL] @ ''  b: 2'')"
proof -
  have 1: "cmem id0 CHR ''a''" by code_simp
  have 2: "\<forall>c\<in>set []. cmem idc c" by simp
  have 3: "\<forall>c\<in>set '' ''. is_space c" by (simp add: is_space_def)
  have 4: "''1'' \<noteq> []" by simp
  have 5: "\<forall>c\<in>set ''1''. c \<noteq> CHR '','' \<and> c \<noteq> NL" by (simp add: NL_def)
  have 6: "\<forall>c\<in>set []. is_space c" by simp
  have t: "text_on_line ''  b: 2''" by code_simp
  then have 7: "NL # ''  b: 2'' = [] \<or> (\<exists>r. NL # ''  b: 2'' = NL # r \<and> text_on_line r)" by simp
  have 8: "CHR '','' \<notin> set ''  ''" by simp
  have r: "rewritten [fse_rule2] (NL # ''  b: 2'') = NL # ''  b: 2''" by code_simp
  from trailing_comma_removed [OF 1 2 3 4 5 6 7, of "''  ''"] 8 1 t r show ?thesis by auto
qed

text \<open>
  C10 (as stated): for every input, no property line of the output ends with a comma.
  On \<^verbatim>\<open>k: {, updatedAt,\<close> the trailing-comma rule finds nothing, and the later rule for
  \<^verbatim>\<open>{, updatedAt\<close> leaves \<^verbatim>\<open>k: { updatedAt,\<close>: a property line whose value holds no
  comma and which ends with one (the rule's own pattern matches it).
\<close>

theorem trailing_comma_survives:
  "fix_syntax_errors ''k: {, updatedAt,'' = Inr ''k: { updatedAt,''
   \<and> matches_at (fst fse_rule2) ''k: { updatedAt,''"
  unfolding fix_syntax_errors_def by code_simp

section \<open>The example scenarios\<close>

text \<open>
  C4 (as stated): on \<^verbatim>\<open>{, updatedAt: new Date()}\<close> a full pass produces
  \<^verbatim>\<open>{ updatedAt: new Date() }\<close>. Neither rule set does so.
\<close>

theorem scenario4_as_stated_fails:
  "apply_rules cf_rules ''{, updatedAt: new Date()}'' \<noteq> Inr ''{ updatedAt: new Date() }''
   \<and> fix_syntax_errors ''{, updatedAt: new Date()}'' \<noteq> Inr ''{ updatedAt: new Date() }''"
  unfolding fix_syntax_errors_def by code_simp

text \<open>
  C4 (amended): on \<^verbatim>\<open>{, updatedAt: new Date()}\<close> a full pass of either rule set
  produces \<^verbatim>\<open>{ updatedAt: new Date()}\<close>: the comma after the brace is replaced by one
  space, and no space is put before the closing brace.
\<close>

theorem scenario4_brace_comma:
  "apply_rules cf_rules ''{, updatedAt: new Date()}'' = Inr ''{ updatedAt: new Date()}''
   \<and> fix_syntax_errors ''{, updatedAt: new Date()}'' = Inr ''{ updatedAt: new Date()}''"
  unfolding fix_syntax_errors_def by code_simp

text \<open>
  C6 (as stated): a full pass rewrites \<^verbatim>\<open>new Date(,\<close> to \<^verbatim>\<open>new Date(),\<close>.
  \<^verbatim>\<open>fix_file_syntax\<close>'s rewrites do not, and \<^verbatim>\<open>fix_syntax_errors\<close> does not when a
  line break follows the comma.
\<close>

theorem scenario3_as_stated_fails:
  "apply_rules cf_rules ''new Date(,'' \<noteq> Inr ''new Date(),''
   \<and> fix_syntax_errors (''new Date(,'' @ [NL]) \<noteq> Inr (''new Date(),'' @ [NL])"
  unfolding fix_syntax_errors_def by code_simp

text \<open>
  C6 (amended): on the buffer \<^verbatim>\<open>new Date(,\<close> (nothing behind the comma),
  \<^verbatim>\<open>fix_syntax_errors\<close> returns \<^verbatim>\<open>new Date(),\<close>; the rewrites of
  \<^verbatim>\<open>fix_file_syntax\<close> return \<^verbatim>\<open>new Date()\<close>, the comma replaced by the closing
  parenthesis alone, and so does \<^verbatim>\<open>fix_syntax_errors\<close> when the comma is followed by a
  line break.
\<close>

theorem scenario3_new_date:
  "fix_syntax_errors ''new Date(,'' = Inr ''new Date(),''
   \<and> apply_rules cf_rules ''new Date(,'' = Inr ''new Date()''
   \<and> fix_syntax_errors (''new Date(,'' @ [NL]) = Inr (''new Date()'' @ [NL])"
  unfolding fix_syntax_errors_def by code_simp

text \<open>
  C7 (as stated): on \<^verbatim>\<open>foo(bar,\<close>, a line break and \<^verbatim>\<open>)\<close>, a full pass produces
  \<^verbatim>\<open>foo(bar)\<close>. \<^verbatim>\<open>fix_syntax_errors\<close> does not.
\<close>

theorem scenario2_as_stated_fails:
  "fix_syntax_errors (''foo(bar,'' @ [NL] @ '')'') \<noteq> Inr ''foo(bar)''"
  unfolding fix_syntax_errors_def by code_simp

text \<open>
  C7 (amended): on that input the rewrites of \<^verbatim>\<open>fix_file_syntax\<close> produce exactly
  \<^verbatim>\<open>foo(bar)\<close>; \<^verbatim>\<open>fix_syntax_errors\<close> closes the call before the line break and
  keeps the old parenthesis: \<^verbatim>\<open>foo(bar)\<close>, a line break, \<^verbatim>\<open>)\<close>.
\<close>

theorem scenario2_stray_comma:
  "apply_rules cf_rules (''foo(bar,'' @ [NL] @ '')'') = Inr ''foo(bar)''
   \<and> fix_syntax_errors (''foo(bar,'' @ [NL] @ '')'') = Inr (''foo(bar)'' @ [NL] @ '')'')"
  unfolding fix_syntax_errors_def by code_simp

text \<open>
  C5 (as stated): for the line \<^verbatim>\<open>gte: startDate\<close> immediately followed on the next
  line by \<^verbatim>\<open>lte: endDate\<close>, a full pass inserts a comma before the line break. With
  no indentation neither \<^verbatim>\<open>fix_file_syntax\<close> nor \<^verbatim>\<open>fix_remaining_syntax.py\<close>
  changes the buffer.
\<close>

theorem scenario1_as_stated_fails:
  "apply_rules cf_rules (''gte: startDate'' @ [NL] @ ''lte: endDate'')
     \<noteq> Inr (''gte: startDate,'' @ [NL] @ ''lte: endDate'')
   \<and> frs_content (''gte: startDate'' @ [NL] @ ''lte: endDate'')
     \<noteq> Inr (''gte: startDate,'' @ [NL] @ ''lte: endDate'')"
  unfolding frs_content_def then_r_def by code_simp

text \<open>
  C5 (amended): when both lines are indented (here by two spaces), a full pass of
  \<^verbatim>\<open>fix_file_syntax\<close>'s rewrites and of \<^verbatim>\<open>fix_remaining_syntax.py\<close>'s inserts a
  comma before the line break; \<^verbatim>\<open>fix_file_syntax\<close> already does so when only the second
  line is indented. The unindented pair is returned unchanged by both.
\<close>

theorem scenario1_missing_comma:
  "apply_rules cf_rules (''  gte: startDate'' @ [NL] @ ''  lte: endDate'')
     = Inr (''  gte: startDate,'' @ [NL] @ ''  lte: endDate'')
   \<and> frs_content (''  gte: startDate'' @ [NL] @ ''  lte: endDate'')
     = Inr (''  gte: startDate,'' @ [NL] @ ''  lte: endDate'')
   \<and> apply_rules cf_rules (''gte: startDate'' @ [NL] @ '' lte: endDate'')
     = Inr (''gte: startDate,'' @ [NL] @ '' lte: endDate'')
   \<and> apply_rules cf_rules (''gte: startDate'' @ [NL] @ ''lte: endDate'')
     = Inr (''gte: startDate'' @ [NL] @ ''lte: endDate'')
   \<and> frs_content (''gte: startDate'' @ [NL] @ ''lte: endDate'')
     = Inr (''gte: startDate'' @ [NL] @ ''lte: endDate'')"
  unfolding frs_content_def then_r_def by code_simp

section \<open>Repeated passes\<close>

subsection \<open>Buffers of closing parentheses\<close>

lemma paren_facts:
  "\<not> is_space CHR '')''" "\<not> cmem id0 CHR '')''" "\<not> is_word CHR '')''" "CHR '')'' \<noteq> NL"
  by (simp_all add: is_space_def id0_def in_rng_def is_word_def NL_def)

lemma lit_parens:
  "c \<noteq> CHR '')'' \<Longrightarrow> rmatch (Seq (Lit (c # w)) E) (replicate k CHR '')'', g) = []"
  by (cases k) simp_all

lemma cf_rule1_parens: "rmatch (fst cf_rule1) (replicate k CHR '')'', g) = []"
  by (cases k) (simp_all add: cf_rule1_def seq_def ident_def paren_facts)

lemma cf_rule2_parens: "rmatch (fst cf_rule2) (replicate k CHR '')'', g) = []"
proof (cases k)
  case 0
  then show ?thesis by (simp add: cf_rule2_def seq_def)
next
  case (Suc j)
  then show ?thesis by (cases j) (simp_all add: cf_rule2_def seq_def NL_def)
qed

lemma cf_rule3_parens: "rmatch (fst cf_rule3) (replicate k CHR '')'', g) = []"
  by (simp add: cf_rule3_def seq_def lit_parens del: rmatch.simps)

lemma cf_rule4_parens: "rmatch (fst cf_rule4) (replicate k CHR '')'', g) = []"
  by (cases k) (simp_all add: cf_rule4_def seq_def paren_facts)

lemma cf_rule5_parens: "rmatch (fst cf_rule5) (replicate k CHR '')'', g) = []"
  by (simp add: cf_rule5_def seq_def lit_parens del: rmatch.simps)

lemma cf_rule6_parens: "rmatch (fst cf_rule6) (replicate k CHR '')'', g) = []"
  by (simp add: cf_rule6_def seq_def lit_parens del: rmatch.simps)


lemma scan_parens_noop:
  assumes "\<And>k. rmatch p (replicate k c, no_caps) = []"
  shows "sub_scan p t False (replicate n c) = replicate n c"
proof (induction n)
  case 0
  from assms [of 0] have "rmatch p ([], no_caps) = []" by simp
  then show ?case by (subst sub_scan.simps) simp
next
  case (Suc n)
  from assms [of "Suc n"] have "rmatch p (c # replicate n c, no_caps) = []" by simp
  from sub_scan_copy [OF this, of t] Suc show ?case by simp
qed

lemma cf_rule7_three:
  "rmatch (fst cf_rule7) (CHR '')'' # CHR '')'' # CHR '')'' # rest, no_caps) = [(rest, no_caps)]"
  by (simp add: cf_rule7_def seq_def spc_def paren_facts)

lemma cf_rule7_scan:
  "sub_scan (fst cf_rule7) (snd cf_rule7) False (replicate n CHR '')'')
     = replicate (2 * (n div 3) + n mod 3) CHR '')''"
proof (induction n rule: less_induct)
  case (less n)
  show ?case
  proof (cases "n < 3")
    case True
    then consider "n = 0" | "n = 1" | "n = 2" by linarith
    then show ?thesis
    proof cases
      case 1
      have "sub_scan (fst cf_rule7) (snd cf_rule7) False [] = []" by code_simp
      with 1 show ?thesis by simp
    next
      case 2
      have "sub_scan (fst cf_rule7) (snd cf_rule7) False '')'' = '')''" by code_simp
      with 2 show ?thesis by simp
    next
      case 3
      have "sub_scan (fst cf_rule7) (snd cf_rule7) False ''))'' = ''))''" by code_simp
      with 3 show ?thesis by (simp add: numeral_2_eq_2)
    qed
  next
    case False
    then have "\<exists>m. n = m + 3" by (intro exI [of _ "n - 3"]) simp
    then obtain m where n: "n = m + 3" ..
    have r: "replicate n CHR '')'' = CHR '')'' # CHR '')'' # CHR '')'' # replicate m CHR '')''"
      by (simp add: n numeral_3_eq_3)
    have t: "snd cf_rule7 = [Txt ''))'']" by (simp add: cf_rule7_def)
    have "m < n" by (simp add: n)
    from less [OF this]
    have IH: "sub_scan (fst cf_rule7) (snd cf_rule7) False (replicate m CHR '')'')
         = replicate (2 * (m div 3) + m mod 3) CHR '')''" .
    have "sub_scan (fst cf_rule7) (snd cf_rule7) False (replicate n CHR '')'')
        = expand (snd cf_rule7) no_caps
          @ sub_scan (fst cf_rule7) (snd cf_rule7) False (replicate m CHR '')'')"
      unfolding r by (rule sub_scan_replace [OF cf_rule7_three]) simp
    also have "\<dots> = CHR '')'' # CHR '')'' # replicate (2 * (m div 3) + m mod 3) CHR '')''"
      by (simp only: IH) (simp add: t)
    also have "\<dots> = replicate (Suc (Suc (2 * (m div 3) + m mod 3))) CHR '')''"
      by simp
    also have "Suc (Suc (2 * (m div 3) + m mod 3)) = 2 * (n div 3) + n mod 3"
      unfolding n by (simp add: div_add_self2)
    finally show ?thesis .
  qed
qed

lemma apply_rules_Cons:
  "apply_rules (r # rs) s =
     (case re_sub (fst r) (snd r) s of Inl e \<Rightarrow> Inl e | Inr s' \<Rightarrow> apply_rules rs s')"
  by (cases r) simp

lemma cf_re_sub:
  "r \<in> set cf_rules \<Longrightarrow> re_sub (fst r) (snd r) s = Inr (sub_scan (fst r) (snd r) False s)"
proof -
  assume "r \<in> set cf_rules"
  with cf_wf have "wf_rule (fst r, snd r)" by (auto simp: list_all_iff)
  then show ?thesis by (rule re_sub_wf)
qed

lemma cf_parens:
  "apply_rules cf_rules (replicate n CHR '')'') = Inr (replicate (2 * (n div 3) + n mod 3) CHR '')'')"
proof -
  have s: "sub_scan (fst r) (snd r) False (replicate n CHR '')'') = replicate n CHR '')''"
    if "r \<in> {cf_rule1, cf_rule2, cf_rule3, cf_rule4, cf_rule5, cf_rule6}" for r
    using that cf_rule1_parens cf_rule2_parens cf_rule3_parens cf_rule4_parens
      cf_rule5_parens cf_rule6_parens
    by (auto intro!: scan_parens_noop)
  have m: "set cf_rules = {cf_rule1, cf_rule2, cf_rule3, cf_rule4, cf_rule5, cf_rule6, cf_rule7}"
    by (simp add: cf_rules_def)
  show ?thesis
    unfolding cf_rules_def
    by (simp add: apply_rules_Cons cf_re_sub m s cf_rule7_scan del: apply_rules.simps(2))
qed

lemma cf_changed: "changed cf_rules s = (rewritten cf_rules s \<noteq> s)"
  by (simp add: changed_def cf_rewritten)

lemma cf_parens_rewritten:
  "rewritten cf_rules (replicate n CHR '')'') = replicate (2 * (n div 3) + n mod 3) CHR '')''"
  by (simp add: rewritten_def cf_parens)

lemma cf_parens_changed: "changed cf_rules (replicate n CHR '')'') = (3 \<le> n)"
proof -
  have e: "n = 3 * (n div 3) + n mod 3" by simp
  have "(n div 3 = 0) = (n < 3)" by (simp add: div_eq_0_iff)
  with e have "(2 * (n div 3) + n mod 3 \<noteq> n) = (3 \<le> n)" by linarith
  then show ?thesis by (simp add: cf_changed cf_parens_rewritten)
qed

lemma cf_parens_changed_again:
  "changed cf_rules (rewritten cf_rules (replicate n CHR '')'')) = (4 \<le> n)"
proof -
  have e: "n = 3 * (n div 3) + n mod 3" by simp
  have m: "n mod 3 < 3" by simp
  from e m have "(3 \<le> 2 * (n div 3) + n mod 3) = (4 \<le> n)" by linarith
  then show ?thesis by (simp add: cf_parens_rewritten cf_parens_changed)
qed


text \<open>
  C1 (as stated): whenever a full pass reports changed = true, a second pass on the
  result reports changed = false. Four closing parentheses are changed by the first and by
  the second pass of \<^verbatim>\<open>fix_file_syntax\<close>'s rewrites, and \<^verbatim>\<open>fix_syntax_errors\<close> changes
  \<^verbatim>\<open>f(a,\<close> followed by a line holding a single comma in two passes running.
\<close>

theorem second_pass_still_changes:
  "changed cf_rules ''))))'' \<and> changed cf_rules (rewritten cf_rules ''))))'')
   \<and> changed fse_rules (''f(a,'' @ [NL] @ '','' @ [NL])
   \<and> changed fse_rules (rewritten fse_rules (''f(a,'' @ [NL] @ '','' @ [NL]))"
  by code_simp

text \<open>
  C1 (amended): the second pass reports changed = false on the example scenarios of the
  specification, not on every input. On the inputs of scenarios 2 to 5, and on the line
  pair of scenario 1 indented by two spaces, each of the three rule sets either leaves the
  input unchanged or changes it and then reports changed = false on the second pass; the
  input of scenario 1 as written is changed by none of them. On a buffer of \<open>n\<close> closing
  parentheses a pass of \<^verbatim>\<open>fix_file_syntax\<close>'s rewrites leaves
  \<open>2 * (n div 3) + n mod 3\<close> of them: it reports changed = true exactly when \<open>3 \<le> n\<close>,
  and the second pass reports changed = true again exactly when \<open>4 \<le> n\<close>.
\<close>

theorem second_pass_verdict:
  "rewritten cf_rules (replicate n CHR '')'') = replicate (2 * (n div 3) + n mod 3) CHR '')''
   \<and> changed cf_rules (replicate n CHR '')'') = (3 \<le> n)
   \<and> changed cf_rules (rewritten cf_rules (replicate n CHR '')'')) = (4 \<le> n)
   \<and> \<not> changed cf_rules scenario1 \<and> \<not> changed fse_rules scenario1
   \<and> \<not> changed frs_rules scenario1
   \<and> settles cf_rules scenario1_indented \<and> \<not> changed fse_rules scenario1_indented
   \<and> settles frs_rules scenario1_indented
   \<and> settles cf_rules scenario2 \<and> settles fse_rules scenario2
   \<and> \<not> changed frs_rules scenario2
   \<and> settles cf_rules scenario3 \<and> settles fse_rules scenario3
   \<and> \<not> changed frs_rules scenario3
   \<and> settles cf_rules scenario4 \<and> settles fse_rules scenario4
   \<and> \<not> changed frs_rules scenario4
   \<and> settles cf_rules scenario5 \<and> \<not> changed fse_rules scenario5
   \<and> \<not> changed frs_rules scenario5"
proof -
  have s1: "\<not> changed cf_rules scenario1" "\<not> changed fse_rules scenario1"
    "\<not> changed frs_rules scenario1"
    by code_simp+
  have s1i: "settles cf_rules scenario1_indented" "\<not> changed fse_rules scenario1_indented"
    "settles frs_rules scenario1_indented"
    by code_simp+
  have s2: "settles cf_rules scenario2" "settles fse_rules scenario2"
    "\<not> changed frs_rules scenario2"
    by code_simp+
  have s3: "settles cf_rules scenario3" "settles fse_rules scenario3"
    "\<not> changed frs_rules scenario3"
    by code_simp+
  have s4: "settles cf_rules scenario4" "settles fse_rules scenario4"
    "\<not> changed frs_rules scenario4"
    by code_simp+
  have s5: "settles cf_rules scenario5" "\<not> changed fse_rules scenario5"
    "\<not> changed frs_rules scenario5"
    by code_simp+
  from cf_parens_rewritten [of n] cf_parens_changed [of n] cf_parens_changed_again [of n]
    s1 s1i s2 s3 s4 s5
  show ?thesis by (intro conjI)
qed

text \<open>
  C1 (amended), at a concrete input: four closing parentheses, changed by the first pass
  and by the second.
\<close>

theorem second_pass_verdict_witness:
  "rewritten cf_rules ''))))'' = '')))''
   \<and> changed cf_rules ''))))'' \<and> changed cf_rules (rewritten cf_rules ''))))'')"
proof -
  have r: "replicate 4 CHR '')'' = ''))))''" by (simp add: eval_nat_numeral)
  have e: "2 * (4 div 3) + 4 mod 3 = (3::nat)" by simp
  have r3: "replicate 3 CHR '')'' = '')))''" by (simp add: numeral_3_eq_3)
  from second_pass_verdict [of 4]
  have a: "rewritten cf_rules (replicate 4 CHR '')'') = replicate (2 * (4 div 3) + 4 mod 3) CHR '')''"
    and b: "changed cf_rules (replicate 4 CHR '')'') = (3 \<le> (4::nat))"
    and c: "changed cf_rules (rewritten cf_rules (replicate 4 CHR '')'')) = (4 \<le> (4::nat))"
    by blast+
  from a have a': "rewritten cf_rules ''))))'' = '')))''" by (simp only: r e r3)
  have b': "changed cf_rules ''))))''" using b unfolding r by simp
  have c': "changed cf_rules (rewritten cf_rules ''))))'')" using c unfolding r by simp
  from a' b' c' show ?thesis by (intro conjI)
qed

end
